theory Spec2Isabelle
  imports Complex_Main "HOL-Library.Word"
begin

unbundle bit_operations_syntax

section \<open>Data model\<close>

text \<open>
  Python integers are unbounded; every integer the checksum code handles is a
  checksum, a byte, a polynomial over GF(2) or a loop counter, none of them
  negative, so they are modelled as \<open>nat\<close> with the bit operations of HOL.
  A Python \<open>str\<close> is a list of code points, a \<open>bytes\<close> or \<open>bytearray\<close> value a
  list of byte values.
\<close>

type_synonym pystr = "nat list"
type_synonym pybytes = "nat list"

datatype error =
    ValueError string
  | AssertionError string
  | UnicodeEncodeError
  | UnicodeDecodeError
  | IndexError
  | TypeError

definition str :: "string \<Rightarrow> pystr" where
  "str s = map of_char s"

section \<open>Checksum engine (nested functions of \<open>generateStrWithNewCRC\<close>)\<close>

definition POLYNOMIAL :: nat where
  "POLYNOMIAL = 0x104C11DB7"

text \<open>\<open>int.bit_length()\<close> on a non-negative integer.\<close>

fun bit_length :: "nat \<Rightarrow> nat" where
  "bit_length n = (if n = 0 then 0 else Suc (bit_length (n div 2)))"

declare bit_length.simps [simp del]

text \<open>\<open>reverse32\<close>: the loop body runs 32 times on the pair \<open>(x, y)\<close>.\<close>

fun reverse32_loop :: "nat \<Rightarrow> nat \<Rightarrow> nat \<Rightarrow> nat" where
  "reverse32_loop 0 x y = y"
| "reverse32_loop (Suc n) x y =
     reverse32_loop n (drop_bit 1 x) (push_bit 1 y OR (x AND 1))"

definition reverse32 :: "nat \<Rightarrow> nat" where
  "reverse32 x = reverse32_loop 32 x 0"

text \<open>
  \<open>multiply_mod\<close>: the \<open>while y != 0\<close> loop on the triple \<open>(x, y, z)\<close>.
  \<open>mm_shift\<close> is the update of \<open>x\<close> in one iteration
  (\<open>x <<= 1; if (x >> 32) & 1 != 0: x ^= POLYNOMIAL\<close>).
\<close>

definition mm_shift :: "nat \<Rightarrow> nat" where
  "mm_shift x =
     (let x' = push_bit 1 x
      in if drop_bit 32 x' AND 1 \<noteq> 0 then x' XOR POLYNOMIAL else x')"

function multiply_mod_loop :: "nat \<Rightarrow> nat \<Rightarrow> nat \<Rightarrow> nat" where
  "multiply_mod_loop x y z =
     (if y \<noteq> 0
      then multiply_mod_loop (mm_shift x) (drop_bit 1 y) (z XOR x * (y AND 1))
      else z)"
  by pat_completeness auto
termination
  by (relation "measure (\<lambda>(x, y, z). y)") (auto simp: drop_bit_eq_div)

declare multiply_mod_loop.simps [simp del]

definition multiply_mod :: "nat \<Rightarrow> nat \<Rightarrow> nat" where
  "multiply_mod x y = multiply_mod_loop x y 0"

text \<open>
  \<open>divide_and_remainder\<close>: \<open>for i in range((x.bit_length() - 1) - ydeg, -1, -1)\<close>
  visits \<open>i = n - 1, \<dots>, 0\<close> with \<open>n = x.bit_length() - ydeg\<close>, and nothing when
  that number is not positive; \<open>divide_loop n\<close> is the rest of the loop when
  \<open>n\<close> indices are left.
\<close>

fun divide_loop :: "nat \<Rightarrow> nat \<Rightarrow> nat \<Rightarrow> nat \<Rightarrow> nat \<Rightarrow> nat \<times> nat" where
  "divide_loop 0 ydeg y x z = (z, x)"
| "divide_loop (Suc i) ydeg y x z =
     (if drop_bit (i + ydeg) x AND 1 \<noteq> 0
      then divide_loop i ydeg y (x XOR push_bit i y) (z OR push_bit i 1)
      else divide_loop i ydeg y x z)"

definition divide_and_remainder :: "nat \<Rightarrow> nat \<Rightarrow> error + nat \<times> nat" where
  "divide_and_remainder x y =
     (if y = 0 then Inl (ValueError ''Division by zero'')
      else if x = 0 then Inr (0, 0)
      else let ydeg = bit_length y - 1
           in Inr (divide_loop (bit_length x - ydeg) ydeg y x 0))"

text \<open>
  The degree of a polynomial as the source computes it
  (\<open>ydeg = y.bit_length() - 1\<close>); the zero polynomial gets \<open>-1\<close>.
\<close>

definition degree :: "nat \<Rightarrow> int" where
  "degree x = int (bit_length x) - 1"

text \<open>
  \<open>reciprocal_mod\<close>. \<open>pow_mod_loop\<close> is the inlined \<open>pow_mod\<close> loop on \<open>(x, a, b)\<close>,
  \<open>euclid_loop\<close> the extended Euclidean loop on \<open>(x, y, a, b)\<close>. The closure
  variables \<open>length\<close> (here \<open>len\<close>) and \<open>offset\<close> are passed as arguments.
\<close>

function pow_mod_loop :: "nat \<Rightarrow> nat \<Rightarrow> nat \<Rightarrow> nat" where
  "pow_mod_loop x a b =
     (if b \<noteq> 0
      then pow_mod_loop (if b AND 1 \<noteq> 0 then multiply_mod x a else x)
             (multiply_mod a a) (drop_bit 1 b)
      else x)"
  by pat_completeness auto
termination
  by (relation "measure (\<lambda>(x, a, b). b)") (auto simp: drop_bit_eq_div)

declare pow_mod_loop.simps [simp del]

function euclid_loop :: "nat \<Rightarrow> nat \<Rightarrow> nat \<Rightarrow> nat \<Rightarrow> error + nat" where
  "euclid_loop x y a b =
     (if y \<noteq> 0
      then (case divide_and_remainder x y of
              Inl e \<Rightarrow> Inl e
            | Inr (q, r) \<Rightarrow> euclid_loop y r b (a XOR multiply_mod q b))
      else if x = 1 then Inr a
      else Inl (ValueError ''Reciprocal does not exist''))"
  by pat_completeness auto

definition reciprocal_mod :: "nat \<Rightarrow> int \<Rightarrow> error + nat" where
  "reciprocal_mod len offset =
     (let x = pow_mod_loop 1 2 (nat ((int len - offset) * 8))
      in euclid_loop POLYNOMIAL x 0 1)"

subsection \<open>Library functions the forcer calls\<close>

text \<open>
  Modelled from the spec: \<open>zlib.crc32\<close> is library code, not part of the
  repository; the spec names it the standard CRC-32 (reflected, initial value and
  final XOR \<open>0xFFFFFFFF\<close>, polynomial \<open>0xEDB88320\<close>). This is the bit-at-a-time
  form of that checksum.
\<close>

definition crc32_bit :: "nat \<Rightarrow> nat" where
  "crc32_bit c = (if c AND 1 \<noteq> 0 then drop_bit 1 c XOR 0xEDB88320 else drop_bit 1 c)"

definition crc32_byte :: "nat \<Rightarrow> nat \<Rightarrow> nat" where
  "crc32_byte c b =
     crc32_bit (crc32_bit (crc32_bit (crc32_bit
       (crc32_bit (crc32_bit (crc32_bit (crc32_bit (c XOR b))))))))"

definition crc32 :: "pybytes \<Rightarrow> nat" where
  "crc32 bs = foldl crc32_byte 0xFFFFFFFF bs XOR 0xFFFFFFFF"

text \<open>\<open>bytearray(string, "ascii")\<close>: every code point must be below 128.\<close>

definition ascii_encode :: "pystr \<Rightarrow> error + pybytes" where
  "ascii_encode s = (if \<forall>c \<in> set s. c < 128 then Inr s else Inl UnicodeEncodeError)"

text \<open>
  \<open>bytearray.decode()\<close>: strict UTF-8, as Python decodes it (no overlong forms,
  no surrogates, nothing above \<open>U+10FFFF\<close>).
\<close>

definition cont :: "nat \<Rightarrow> bool" where
  "cont b = (0x80 \<le> b \<and> b \<le> 0xBF)"

fun utf8_decode :: "pybytes \<Rightarrow> error + pystr" where
  "utf8_decode [] = Inr []"
| "utf8_decode (b0 # bs) =
     (if b0 < 0x80 then map_sum id ((#) b0) (utf8_decode bs)
      else if 0xC2 \<le> b0 \<and> b0 \<le> 0xDF then
        (case bs of
           b1 # r \<Rightarrow>
             if cont b1
             then map_sum id ((#) ((b0 - 0xC0) * 64 + (b1 - 0x80))) (utf8_decode r)
             else Inl UnicodeDecodeError
         | _ \<Rightarrow> Inl UnicodeDecodeError)
      else if 0xE0 \<le> b0 \<and> b0 \<le> 0xEF then
        (case bs of
           b1 # b2 # r \<Rightarrow>
             if (if b0 = 0xE0 then 0xA0 else 0x80) \<le> b1
                \<and> b1 \<le> (if b0 = 0xED then 0x9F else 0xBF) \<and> cont b2
             then map_sum id
                    ((#) ((b0 - 0xE0) * 4096 + (b1 - 0x80) * 64 + (b2 - 0x80)))
                    (utf8_decode r)
             else Inl UnicodeDecodeError
         | _ \<Rightarrow> Inl UnicodeDecodeError)
      else if 0xF0 \<le> b0 \<and> b0 \<le> 0xF4 then
        (case bs of
           b1 # b2 # b3 # r \<Rightarrow>
             if (if b0 = 0xF0 then 0x90 else 0x80) \<le> b1
                \<and> b1 \<le> (if b0 = 0xF4 then 0x8F else 0xBF) \<and> cont b2 \<and> cont b3
             then map_sum id
                    ((#) ((b0 - 0xF0) * 262144 + (b1 - 0x80) * 4096
                          + (b2 - 0x80) * 64 + (b3 - 0x80)))
                    (utf8_decode r)
             else Inl UnicodeDecodeError
         | _ \<Rightarrow> Inl UnicodeDecodeError)
      else Inl UnicodeDecodeError)"

text \<open>
  \<open>bytes(s, "utf-8")\<close>, which the index build uses to hash a name: every code
  point but a surrogate has an encoding of one to four bytes.
\<close>

fun utf8_encode :: "pystr \<Rightarrow> error + pybytes" where
  "utf8_encode [] = Inr []"
| "utf8_encode (c # cs) =
     (if c < 0x80 then map_sum id ((#) c) (utf8_encode cs)
      else if c < 0x800 then
        map_sum id ((@) [0xC0 + c div 64, 0x80 + c mod 64]) (utf8_encode cs)
      else if 0xD800 \<le> c \<and> c \<le> 0xDFFF then Inl UnicodeEncodeError
      else if c < 0x10000 then
        map_sum id ((@) [0xE0 + c div 4096, 0x80 + c div 64 mod 64, 0x80 + c mod 64])
          (utf8_encode cs)
      else if c < 0x110000 then
        map_sum id
          ((@) [0xF0 + c div 262144, 0x80 + c div 4096 mod 64,
                0x80 + c div 64 mod 64, 0x80 + c mod 64])
          (utf8_encode cs)
      else Inl UnicodeEncodeError)"

section \<open>Identifier forcer: \<open>generateStrWithNewCRC\<close>\<close>

text \<open>
  Python indexing of a sequence of length \<open>n\<close> with a possibly negative index.
\<close>

definition py_index :: "nat \<Rightarrow> int \<Rightarrow> error + nat" where
  "py_index n i =
     (if 0 \<le> i \<and> i < int n then Inr (nat i)
      else if - int n \<le> i \<and> i < 0 then Inr (nat (i + int n))
      else Inl IndexError)"

text \<open>
  The patch loop \<open>for i in range(4): string[offset+i] ^= (w >> (i * 8)) & 0xFF\<close>
  with \<open>w = reverse32(delta)\<close>; the first argument is the list of the remaining
  values of \<open>i\<close>.
\<close>

fun patch_loop :: "nat list \<Rightarrow> int \<Rightarrow> nat \<Rightarrow> pybytes \<Rightarrow> error + pybytes" where
  "patch_loop [] offset w string = Inr string"
| "patch_loop (i # is) offset w string =
     (case py_index (length string) (offset + int i) of
        Inl e \<Rightarrow> Inl e
      | Inr k \<Rightarrow>
          patch_loop is offset w
            (string[k := string ! k XOR (drop_bit (i * 8) w AND 0xFF)]))"

text \<open>
  \<open>modify_string_crc32\<close>. The \<open>printstatus\<close> argument only prints and is always
  \<open>False\<close> in this program; it is left out.
\<close>

definition modify_string_crc32 :: "pystr \<Rightarrow> nat \<Rightarrow> error + pybytes" where
  "modify_string_crc32 string newcrc =
     (case ascii_encode string of
        Inl e \<Rightarrow> Inl e
      | Inr bs \<Rightarrow>
          let len = length bs;
              offset = int len - 4
          in if offset + 4 > int len
             then Inl (ValueError ''Byte offset plus 4 exceeds file length'')
             else
               let crc = crc32 bs;
                   delta = crc XOR newcrc
               in case reciprocal_mod len offset of
                    Inl e \<Rightarrow> Inl e
                  | Inr rcp \<Rightarrow>
                      let delta = multiply_mod rcp (reverse32 delta)
                      in case patch_loop [0, 1, 2, 3] offset (reverse32 delta) bs of
                           Inl e \<Rightarrow> Inl e
                         | Inr patched \<Rightarrow>
                             if crc32 patched \<noteq> newcrc
                             then Inl (AssertionError
                                    ''Failed to update CRC-32 to desired value'')
                             else Inr patched)"

definition USABLE_CHARS :: pystr where
  "USABLE_CHARS = str ''0123456789abcdefghijklmnopqrstuvwxyz''"

text \<open>
  A value the forcer returns, and so a key of the caption dictionary: a string, or
  the integer \<open>-1\<close> of the final \<open>return -1\<close>.
\<close>

datatype pyval = PyStr pystr | PyInt int

text \<open>
  The body of the innermost loop for one choice of \<open>c1 \<dots> c4\<close>: \<open>Inr (Some s)\<close>
  is \<open>return s\<close>, \<open>Inr None\<close> falls through to the next iteration, \<open>Inl e\<close> is
  an exception raised by \<open>modify_string_crc32\<close>, which no handler catches.
\<close>

definition last4 :: "'a list \<Rightarrow> 'a list" where
  "last4 s = drop (length s - 4) s"

definition try_candidate ::
  "pystr \<Rightarrow> nat \<Rightarrow> nat \<Rightarrow> nat \<Rightarrow> nat \<Rightarrow> nat \<Rightarrow> error + pystr option" where
  "try_candidate string newcrc c1 c2 c3 c4 =
     (case modify_string_crc32 (string @ [c1] @ [c2] @ [c3] @ [c4] @ str ''0000'') newcrc of
        Inl e \<Rightarrow> Inl e
      | Inr newString \<Rightarrow>
          let end = (case utf8_decode newString of
                       Inl e \<Rightarrow> str ''-''
                     | Inr s \<Rightarrow> last4 s)
          in if \<not> (length (filter (\<lambda>c. c \<notin> set USABLE_CHARS) end) > 0)
             then (case utf8_decode newString of
                     Inl e \<Rightarrow> Inl e
                   | Inr s \<Rightarrow> Inr (Some s))
             else Inr None)"

fun loop_c4 ::
  "pystr \<Rightarrow> nat \<Rightarrow> nat \<Rightarrow> nat \<Rightarrow> nat \<Rightarrow> nat list \<Rightarrow> error + pystr option" where
  "loop_c4 string newcrc c1 c2 c3 [] = Inr None"
| "loop_c4 string newcrc c1 c2 c3 (c4 # cs) =
     (case try_candidate string newcrc c1 c2 c3 c4 of
        Inl e \<Rightarrow> Inl e
      | Inr (Some s) \<Rightarrow> Inr (Some s)
      | Inr None \<Rightarrow> loop_c4 string newcrc c1 c2 c3 cs)"

fun loop_c3 ::
  "pystr \<Rightarrow> nat \<Rightarrow> nat \<Rightarrow> nat \<Rightarrow> nat list \<Rightarrow> error + pystr option" where
  "loop_c3 string newcrc c1 c2 [] = Inr None"
| "loop_c3 string newcrc c1 c2 (c3 # cs) =
     (case loop_c4 string newcrc c1 c2 c3 USABLE_CHARS of
        Inl e \<Rightarrow> Inl e
      | Inr (Some s) \<Rightarrow> Inr (Some s)
      | Inr None \<Rightarrow> loop_c3 string newcrc c1 c2 cs)"

fun loop_c2 ::
  "pystr \<Rightarrow> nat \<Rightarrow> nat \<Rightarrow> nat list \<Rightarrow> error + pystr option" where
  "loop_c2 string newcrc c1 [] = Inr None"
| "loop_c2 string newcrc c1 (c2 # cs) =
     (case loop_c3 string newcrc c1 c2 USABLE_CHARS of
        Inl e \<Rightarrow> Inl e
      | Inr (Some s) \<Rightarrow> Inr (Some s)
      | Inr None \<Rightarrow> loop_c2 string newcrc c1 cs)"

fun loop_c1 ::
  "pystr \<Rightarrow> nat \<Rightarrow> nat list \<Rightarrow> error + pystr option" where
  "loop_c1 string newcrc [] = Inr None"
| "loop_c1 string newcrc (c1 # cs) =
     (case loop_c2 string newcrc c1 USABLE_CHARS of
        Inl e \<Rightarrow> Inl e
      | Inr (Some s) \<Rightarrow> Inr (Some s)
      | Inr None \<Rightarrow> loop_c1 string newcrc cs)"

definition generateStrWithNewCRC :: "pystr \<Rightarrow> nat \<Rightarrow> error + pyval" where
  "generateStrWithNewCRC string newcrc =
     (case loop_c1 string newcrc USABLE_CHARS of
        Inl e \<Rightarrow> Inl e
      | Inr (Some s) \<Rightarrow> Inr (PyStr s)
      | Inr None \<Rightarrow> Inr (PyInt (- 1)))"

section \<open>Python values the program handles\<close>

text \<open>
  \<open>str(n)\<close> of a non-negative integer, \<open>s.rjust(width, fill)\<close>, and
  \<open>int.from_bytes(bs, "little")\<close>.
\<close>

function str_nat :: "nat \<Rightarrow> pystr" where
  "str_nat n = (if n < 10 then [48 + n] else str_nat (n div 10) @ [48 + n mod 10])"
  by pat_completeness auto
termination
  by (relation "measure id") auto

declare str_nat.simps [simp del]

definition rjust :: "nat \<Rightarrow> nat \<Rightarrow> pystr \<Rightarrow> pystr" where
  "rjust width fill s = replicate (width - length s) fill @ s"

fun from_bytes_little :: "pybytes \<Rightarrow> nat" where
  "from_bytes_little [] = 0"
| "from_bytes_little (b # bs) = b + 256 * from_bytes_little bs"

text \<open>
  A dictionary keeps its keys in insertion order; assigning to a key that is
  present replaces the value where the key stands.
\<close>

fun dict_set :: "('k \<times> 'v) list \<Rightarrow> 'k \<Rightarrow> 'v \<Rightarrow> ('k \<times> 'v) list" where
  "dict_set [] k v = [(k, v)]"
| "dict_set ((k', v') # d) k v =
     (if k' = k then (k, v) # d else (k', v') # dict_set d k v)"

text \<open>\<open>len(x)\<close> of a dictionary key: an \<open>int\<close> has no length.\<close>

fun py_len :: "pyval \<Rightarrow> error + nat" where
  "py_len (PyStr s) = Inr (length s)"
| "py_len (PyInt i) = Inl TypeError"

section \<open>The input stream\<close>

text \<open>
  The archive opened in binary mode: its bytes and the stream position. \<open>trail\<close>
  is not a field of the Python object: it records every position the stream has
  been given, in order, so that the movement of the position can be stated.
  \<open>read\<close> returns fewer bytes than asked only at the end of the file, and nothing
  beyond it; \<open>seek\<close> accepts any offset.
\<close>

record stream =
  content :: pybytes
  pos :: nat
  trail :: "nat list"

definition open_file :: "pybytes \<Rightarrow> stream" where
  "open_file bs = \<lparr>content = bs, pos = 0, trail = [0]\<rparr>"

definition file_read :: "nat \<Rightarrow> stream \<Rightarrow> pybytes \<times> stream" where
  "file_read n f =
     (let bs = take n (drop (pos f) (content f));
          p = pos f + length bs
      in (bs, f\<lparr>pos := p, trail := trail f @ [p]\<rparr>))"

definition file_seek :: "nat \<Rightarrow> stream \<Rightarrow> stream" where
  "file_seek p f = f\<lparr>pos := p, trail := trail f @ [p]\<rparr>"

text \<open>\<open>bytes.decode("ascii")\<close> and \<open>bytes.decode("utf_16_le")\<close> of one read of two bytes.\<close>

definition ascii_decode :: "pybytes \<Rightarrow> error + pystr" where
  "ascii_decode bs = (if \<forall>b \<in> set bs. b < 128 then Inr bs else Inl UnicodeDecodeError)"

fun decode_utf16_unit :: "pybytes \<Rightarrow> error + pystr" where
  "decode_utf16_unit [] = Inr []"
| "decode_utf16_unit [b0, b1] =
     (let u = b0 + 256 * b1
      in if 0xD800 \<le> u \<and> u \<le> 0xDFFF then Inl UnicodeDecodeError else Inr [u])"
| "decode_utf16_unit bs = Inl UnicodeDecodeError"

section \<open>The command line\<close>

text \<open>
  The fields of \<open>args\<close> that the modelled functions read. \<open>tabs\<close> is the \<open>--tabs\<close>
  switch, which selects spaces.
\<close>

record args =
  same_hashes :: bool
  padding :: int
  no_align :: bool
  tabs :: bool
  verbose :: int

section \<open>Soundscript hash index: \<open>getSoundscriptsFromFiles\<close>\<close>

text \<open>
  The names come from files and switches that are outside the model: the argument
  is \<open>None\<close> when no source was given, and otherwise the list \<open>foundSoundscripts\<close>
  as it stands when the hashing loop starts. The result is the dictionary and the
  lines the hashing step prints.
\<close>

fun hash_names_loop ::
  "pystr list \<Rightarrow> (nat \<times> pystr) list \<Rightarrow> error + (nat \<times> pystr) list" where
  "hash_names_loop [] soundscriptCandidates = Inr soundscriptCandidates"
| "hash_names_loop (souncscript # rest) soundscriptCandidates =
     (case utf8_encode souncscript of
        Inl e \<Rightarrow> Inl e
      | Inr bs \<Rightarrow>
          hash_names_loop rest (dict_set soundscriptCandidates (crc32 bs) souncscript))"

definition getSoundscriptsFromFiles ::
  "pystr list option \<Rightarrow> error + (string list \<times> (nat \<times> pystr) list)" where
  "getSoundscriptsFromFiles sources =
     (case sources of
        None \<Rightarrow>
          Inr ([''No soundscript files provided. Skipping name hash matching''], [])
      | Some foundSoundscripts \<Rightarrow>
          (case hash_names_loop foundSoundscripts [] of
             Inl e \<Rightarrow> Inl e
           | Inr soundscriptCandidates \<Rightarrow>
               Inr ([''Hashing soundscript names...''], soundscriptCandidates)))"

section \<open>Archive reader\<close>

record dir_entry =
  entry_hash :: nat
  entry_index :: nat
  entry_offset :: nat
  entry_length :: nat

text \<open>\<open>getDirEntries\<close>: the loop runs \<open>DIRECTORY_SIZE\<close> times.\<close>

fun getDirEntries_loop :: "nat \<Rightarrow> stream \<Rightarrow> dir_entry list \<Rightarrow> dir_entry list \<times> stream" where
  "getDirEntries_loop 0 f entries = (entries, f)"
| "getDirEntries_loop (Suc n) f entries =
     (let (HASH, f) = file_read 4 f;
          (BLOCK_INDEX, f) = file_read 4 f;
          (OFFSET, f) = file_read 2 f;
          (LEN, f) = file_read 2 f
      in getDirEntries_loop n f
           (entries @ [\<lparr>entry_hash = from_bytes_little HASH,
                         entry_index = from_bytes_little BLOCK_INDEX,
                         entry_offset = from_bytes_little OFFSET,
                         entry_length = from_bytes_little LEN\<rparr>]))"

definition getDirEntries :: "stream \<Rightarrow> nat \<Rightarrow> nat \<Rightarrow> dir_entry list \<times> stream" where
  "getDirEntries f HEADER_SIZE DIRECTORY_SIZE =
     getDirEntries_loop DIRECTORY_SIZE (file_seek HEADER_SIZE f) []"

text \<open>
  The caption of one entry: \<open>for _ in range(int(entry["length"]/2)-1)\<close> reads and
  decodes two bytes at a time; the first argument is the number of iterations
  left.
\<close>

fun read_caption_loop :: "nat \<Rightarrow> stream \<Rightarrow> pystr \<Rightarrow> error + pystr \<times> stream" where
  "read_caption_loop 0 f caption = Inr (caption, f)"
| "read_caption_loop (Suc n) f caption =
     (let (bs, f) = file_read 2 f
      in case decode_utf16_unit bs of
           Inl e \<Rightarrow> Inl e
         | Inr s \<Rightarrow> read_caption_loop n f (caption @ s))"

text \<open>
  The name of one entry (the lines from \<open>captionName = str(entry["hash"]).rjust(10, "0")\<close>
  to the end of the matching): the name and the increment of \<open>ssHashMatches\<close>.
\<close>

definition resolve_name ::
  "args \<Rightarrow> (nat \<times> pystr) list \<Rightarrow> nat \<Rightarrow> error + pyval \<times> nat" where
  "resolve_name a soundscriptCandidates h =
     (let captionName = rjust 10 48 (str_nat h)
      in if length soundscriptCandidates > 0
         then (case map_of soundscriptCandidates h of
                 Some name \<Rightarrow> Inr (PyStr name, 1)
               | None \<Rightarrow>
                   if same_hashes a
                   then (case generateStrWithNewCRC (rjust 10 48 (str_nat h) @ str ''.'') h of
                           Inl e \<Rightarrow> Inl e
                         | Inr v \<Rightarrow> Inr (v, 0))
                   else Inr (PyStr captionName, 0))
         else Inr (PyStr captionName, 0))"

text \<open>
  The state of the loop of \<open>readCaptionBlocks\<close> over the directory entries.
\<close>

record reader_state =
  rs_file :: stream
  blockIndex :: nat
  ssHashMatches :: nat
  finalCaptions :: "(pyval \<times> pystr) list"

definition read_entry ::
  "args \<Rightarrow> (nat \<times> pystr) list \<Rightarrow> nat \<Rightarrow> nat \<Rightarrow> dir_entry \<Rightarrow> reader_state
     \<Rightarrow> error + reader_state" where
  "read_entry a soundscriptCandidates DATA_OFFSET BLOCK_SIZE entry st =
     (let f = (if entry_index entry > blockIndex st
               then file_seek (DATA_OFFSET + BLOCK_SIZE * entry_index entry) (rs_file st)
               else rs_file st)
      in case read_caption_loop (entry_length entry div 2 - 1) f [] of
           Inl e \<Rightarrow> Inl e
         | Inr (caption, f) \<Rightarrow>
             let (terminator, f) = file_read 2 f
             in case resolve_name a soundscriptCandidates (entry_hash entry) of
                  Inl e \<Rightarrow> Inl e
                | Inr (captionName, matched) \<Rightarrow>
                    if verbose a \<ge> 2 \<and> isl (py_len captionName)
                    then Inl TypeError
                    else Inr \<lparr>rs_file = f,
                              blockIndex = entry_index entry,
                              ssHashMatches = ssHashMatches st + matched,
                              finalCaptions =
                                dict_set (finalCaptions st) captionName caption\<rparr>)"

fun read_entries ::
  "args \<Rightarrow> (nat \<times> pystr) list \<Rightarrow> nat \<Rightarrow> nat \<Rightarrow> dir_entry list \<Rightarrow> reader_state
     \<Rightarrow> error + reader_state" where
  "read_entries a soundscriptCandidates DATA_OFFSET BLOCK_SIZE [] st = Inr st"
| "read_entries a soundscriptCandidates DATA_OFFSET BLOCK_SIZE (entry # rest) st =
     (case read_entry a soundscriptCandidates DATA_OFFSET BLOCK_SIZE entry st of
        Inl e \<Rightarrow> Inl e
      | Inr st' \<Rightarrow> read_entries a soundscriptCandidates DATA_OFFSET BLOCK_SIZE rest st')"

definition readCaptionBlocks ::
  "args \<Rightarrow> stream \<Rightarrow> dir_entry list \<Rightarrow> (nat \<times> pystr) list \<Rightarrow> nat \<Rightarrow> nat
     \<Rightarrow> error + reader_state" where
  "readCaptionBlocks a f captionDirEntries soundscriptCandidates DATA_OFFSET BLOCK_SIZE =
     read_entries a soundscriptCandidates DATA_OFFSET BLOCK_SIZE captionDirEntries
       \<lparr>rs_file = file_seek DATA_OFFSET f, blockIndex = 0, ssHashMatches = 0,
        finalCaptions = []\<rparr>"

section \<open>Text emitter: \<open>writeCaptions\<close>\<close>

text \<open>
  \<open>ceil(a / b)\<close> and \<open>floor(a / b)\<close> on integers. The source divides in floating
  point; for the lengths of keys, far below \<open>2 ^ 53\<close>, that quotient rounds to the
  same integers as the exact one, which is what is modelled.
\<close>

definition py_ceil_div :: "int \<Rightarrow> int \<Rightarrow> int" where
  "py_ceil_div a b = - ((- a) div b)"

definition py_floor_div :: "int \<Rightarrow> int \<Rightarrow> int" where
  "py_floor_div a b = a div b"

text \<open>How an f-string renders a dictionary key.\<close>

fun py_format :: "pyval \<Rightarrow> pystr" where
  "py_format (PyStr s) = s"
| "py_format (PyInt i) = (if i < 0 then 45 # str_nat (nat (- i)) else str_nat (nat i))"

text \<open>
  \<open>padChar\<close> as the first lines of \<open>writeCaptions\<close> set it: a tab, nothing with
  \<open>--tabs\<close> and no positive padding, \<open>padding\<close> spaces with \<open>--tabs\<close> otherwise.
\<close>

definition padChar_of :: "args \<Rightarrow> pystr" where
  "padChar_of a =
     (let padChar = [9];
          padChar = (if tabs a then [] else padChar)
      in if padding a > 0
         then (if tabs a then replicate (nat (padding a)) 32 else padChar)
         else padChar)"

text \<open>\<open>padAmount\<close> for a key of \<open>len(name) = n\<close>, when alignment is on.\<close>

definition padAmount_of :: "args \<Rightarrow> int \<Rightarrow> nat \<Rightarrow> int" where
  "padAmount_of a maxCaptionLength n =
     (let padAmount = py_ceil_div maxCaptionLength (padding a)
                        - py_floor_div (int n + 2) (padding a)
      in if tabs a
         then (maxCaptionLength + (padding a - (maxCaptionLength mod padding a)))
                - (int n + 2)
         else padAmount)"

text \<open>
  \<open>paddingAlignment\<close> for one key: \<open>range(padAmount)\<close> is empty when \<open>padAmount\<close> is
  not positive.
\<close>

definition paddingAlignment_of :: "args \<Rightarrow> int \<Rightarrow> pyval \<Rightarrow> error + pystr" where
  "paddingAlignment_of a maxCaptionLength name =
     (if \<not> no_align a \<and> padding a > 0
      then (case py_len name of
              Inl e \<Rightarrow> Inl e
            | Inr n \<Rightarrow>
                let innerPadChar = (if tabs a then [32] else padChar_of a)
                in Inr (concat (replicate (nat (padAmount_of a maxCaptionLength n))
                                  innerPadChar)))
      else Inr (padChar_of a))"

definition quoted :: "pystr \<Rightarrow> pystr" where
  "quoted s = [34] @ s @ [34]"

definition caption_line :: "args \<Rightarrow> int \<Rightarrow> pyval \<Rightarrow> pystr \<Rightarrow> error + pystr" where
  "caption_line a maxCaptionLength name caption =
     (case paddingAlignment_of a maxCaptionLength name of
        Inl e \<Rightarrow> Inl e
      | Inr paddingAlignment \<Rightarrow>
          Inr (padChar_of a @ padChar_of a @ quoted (py_format name) @ paddingAlignment
               @ quoted caption @ [10]))"

fun write_loop ::
  "args \<Rightarrow> int \<Rightarrow> (pyval \<times> pystr) list \<Rightarrow> pystr \<Rightarrow> error + pystr" where
  "write_loop a maxCaptionLength [] output = Inr output"
| "write_loop a maxCaptionLength ((name, caption) # rest) output =
     (case caption_line a maxCaptionLength name caption of
        Inl e \<Rightarrow> Inl e
      | Inr line \<Rightarrow> write_loop a maxCaptionLength rest (output @ line))"

text \<open>
  \<open>writeCaptions\<close>: the result is the text handed to \<open>file.write\<close>. The encoding of
  that text as UTF-16 and the progress lines printed on the way are left out.
\<close>

definition writeCaptions ::
  "args \<Rightarrow> (pyval \<times> pystr) list \<Rightarrow> int \<Rightarrow> pystr \<Rightarrow> error + pystr" where
  "writeCaptions a captions maxCaptionLength language =
     (let padChar = padChar_of a;
          output = quoted (str ''lang'') @ [10] @ str ''{'' @ [10]
                   @ padChar @ quoted (str ''Language'') @ [32] @ quoted language @ [10]
                   @ padChar @ quoted (str ''Tokens'') @ [10]
                   @ padChar @ str ''{'' @ [10]
      in case write_loop a maxCaptionLength captions output of
           Inl e \<Rightarrow> Inl e
         | Inr output \<Rightarrow> Inr (output @ padChar @ str ''}'' @ [10] @ str ''}''))"

section \<open>\<open>main\<close>, from the opening of the archive\<close>

text \<open>
  How a run ends: \<open>sys.exit()\<close> after an error line, an uncaught exception, or the
  output file written with a text. Only \<open>Wrote\<close> creates the output file.
\<close>

datatype exit_reason = InvalidMagic | InvalidVersion nat

datatype outcome = Exited exit_reason | Raised error | Wrote pystr

text \<open>
  The loop that computes \<open>maxCaptionLength\<close>, and the two lines after it
  (\<open>maxCaptionLength += 2\<close> and the adjustment for alignment).
\<close>

fun max_len_loop :: "(pyval \<times> pystr) list \<Rightarrow> nat \<Rightarrow> error + nat" where
  "max_len_loop [] maxCaptionLength = Inr maxCaptionLength"
| "max_len_loop ((name, caption) # rest) maxCaptionLength =
     (case py_len name of
        Inl e \<Rightarrow> Inl e
      | Inr n \<Rightarrow>
          max_len_loop rest (if n > maxCaptionLength then n else maxCaptionLength))"

definition adjust_max :: "args \<Rightarrow> int \<Rightarrow> int" where
  "adjust_max a maxCaptionLength =
     (let maxCaptionLength = maxCaptionLength + 2
      in if \<not> no_align a \<and> padding a > 0 \<and> maxCaptionLength mod padding a = 0
         then maxCaptionLength + 1
         else maxCaptionLength)"

text \<open>
  \<open>main\<close> from \<open>with open(args.input.name, mode="rb")\<close> on. The language and the
  candidate names are what the lines before it and the collaborators provide. The
  result is how the run ends and the stream as it is left.
\<close>

definition main ::
  "args \<Rightarrow> pystr \<Rightarrow> pystr list option \<Rightarrow> pybytes \<Rightarrow> outcome \<times> stream" where
  "main a language sources bytes =
     (let f = open_file bytes;
          (magic, f) = file_read 4 f
      in case ascii_decode magic of
           Inl e \<Rightarrow> (Raised e, f)
         | Inr MAGIC \<Rightarrow>
             if MAGIC \<noteq> str ''VCCD'' then (Exited InvalidMagic, f)
             else
               let (bs, f) = file_read 4 f;
                   VERSION = from_bytes_little bs
               in if VERSION \<noteq> 1 then (Exited (InvalidVersion VERSION), f)
                  else
                    let (bs, f) = file_read 4 f;
                        NUM_BLOCKS = from_bytes_little bs;
                        (bs, f) = file_read 4 f;
                        BLOCK_SIZE = from_bytes_little bs;
                        (bs, f) = file_read 4 f;
                        DIRECTORY_SIZE = from_bytes_little bs;
                        (bs, f) = file_read 4 f;
                        DATA_OFFSET = from_bytes_little bs;
                        HEADER_SIZE = 24;
                        (captionDirEntries, f) = getDirEntries f HEADER_SIZE DIRECTORY_SIZE
                    in case getSoundscriptsFromFiles sources of
                         Inl e \<Rightarrow> (Raised e, f)
                       | Inr (printed, soundscriptCandidates) \<Rightarrow>
                           (case readCaptionBlocks a f captionDirEntries soundscriptCandidates
                                   DATA_OFFSET BLOCK_SIZE of
                              Inl e \<Rightarrow> (Raised e, f)
                            | Inr st \<Rightarrow>
                                (case max_len_loop (finalCaptions st) 0 of
                                   Inl e \<Rightarrow> (Raised e, rs_file st)
                                 | Inr maxCaptionLength \<Rightarrow>
                                     (case writeCaptions a (finalCaptions st)
                                             (adjust_max a (int maxCaptionLength)) language of
                                        Inl e \<Rightarrow> (Raised e, rs_file st)
                                      | Inr text \<Rightarrow> (Wrote text, rs_file st)))))"

section \<open>Notions the statements use\<close>




text \<open>
  The stream \<open>f'\<close> is the stream \<open>f\<close> after operations that never moved the
  position backward.
\<close>

definition forward :: "stream \<Rightarrow> stream \<Rightarrow> bool" where
  "forward f f' =
     (\<exists>ps. trail f' = trail f @ ps \<and> sorted (pos f # ps) \<and> pos f' = last (pos f # ps))"

section \<open>Properties of the checksum engine\<close>

lemma and1_ne0_iff: "(drop_bit n (x::nat) AND 1 \<noteq> 0) = bit x n"
  by (simp add: bit_iff_odd_drop_bit and_one_eq mod_2_eq_odd)

lemma mm_shift_alt: "mm_shift x = push_bit 1 x XOR (if bit x 31 then POLYNOMIAL else 0)"
proof -
  have "bit (push_bit 1 x) 32 = bit x 31"
    by (subst bit_push_bit_iff) simp
  then show ?thesis
    unfolding mm_shift_def Let_def and1_ne0_iff by simp
qed

lemma mm_shift_xor: "mm_shift (a XOR b) = mm_shift a XOR mm_shift b"
  unfolding mm_shift_alt push_bit_xor bit_xor_iff
  by (simp add: xor.assoc xor.left_commute)

lemma mm_shift_0: "mm_shift 0 = 0"
  by (simp add: mm_shift_alt)

lemma multiply_mod_loop_acc: "multiply_mod_loop x y z = z XOR multiply_mod_loop x y 0"
proof (induction y arbitrary: x z rule: less_induct)
  case (less y)
  show ?case
  proof (cases "y = 0")
    case True then show ?thesis by (simp add: multiply_mod_loop.simps)
  next
    case False
    then have lt: "drop_bit 1 y < y" by (simp add: drop_bit_eq_div)
    have a: "multiply_mod_loop x y z = (z XOR x * (y AND 1)) XOR multiply_mod_loop (mm_shift x) (drop_bit 1 y) 0"
      using False less[OF lt, of "mm_shift x" "z XOR x * (y AND 1)"]
      by (subst multiply_mod_loop.simps) (simp only: if_True not_False_eq_True)
    have b: "multiply_mod_loop x y 0 = (0 XOR x * (y AND 1)) XOR multiply_mod_loop (mm_shift x) (drop_bit 1 y) 0"
      using False less[OF lt, of "mm_shift x" "0 XOR x * (y AND 1)"]
      by (subst multiply_mod_loop.simps) (simp only: if_True not_False_eq_True)
    show ?thesis unfolding a b by (simp add: xor.assoc)
  qed
qed

lemma multiply_mod_0: "multiply_mod x 0 = 0"
  by (simp add: multiply_mod_def multiply_mod_loop.simps)

lemma multiply_mod_unfold:
  "multiply_mod x y = x * (y mod 2) XOR multiply_mod (mm_shift x) (y div 2)"
proof (cases "y = 0")
  case True then show ?thesis by (simp add: multiply_mod_0)
next
  case False
  have "multiply_mod_loop x y 0 = multiply_mod_loop (mm_shift x) (drop_bit 1 y) (0 XOR x * (y AND 1))"
    using False by (subst multiply_mod_loop.simps) simp
  also have "\<dots> = (0 XOR x * (y AND 1)) XOR multiply_mod_loop (mm_shift x) (drop_bit 1 y) 0"
    by (rule multiply_mod_loop_acc)
  finally show ?thesis
    by (simp add: multiply_mod_def and_one_eq drop_bit_eq_div)
qed

lemma bit_times_xor: "b < 2 \<Longrightarrow> (x XOR y) * b = x * b XOR y * (b::nat)"
  by (cases "b = 0") (auto simp: less_2_cases_iff)

lemma multiply_mod_xor_left:
  "multiply_mod (a XOR b) y = multiply_mod a y XOR multiply_mod b y"
proof (induction y arbitrary: a b rule: less_induct)
  case (less y)
  show ?case
  proof (cases "y = 0")
    case True then show ?thesis by (simp add: multiply_mod_0)
  next
    case False
    then have lt: "y div 2 < y" by simp
    show ?thesis
      apply (subst (1 2 3) multiply_mod_unfold)
      apply (simp add: mm_shift_xor less[OF lt] bit_times_xor xor.assoc xor.left_commute)
      done
  qed
qed

lemma xor_div2: "(a XOR b) div 2 = a div 2 XOR (b::nat) div 2"
  by (metis drop_bit_xor drop_bit_eq_div power_one_right)
lemma xor_mod2: "(a XOR b) mod 2 = (a mod 2) XOR ((b::nat) mod 2)"
  by (metis take_bit_xor take_bit_eq_mod power_one_right)

lemma times_bit_xor: "a < 2 \<Longrightarrow> b < 2 \<Longrightarrow> x * (a XOR b) = x * a XOR x * (b::nat)"
  by (auto simp: less_2_cases_iff)

lemma multiply_mod_xor_right:
  "multiply_mod x (a XOR b) = multiply_mod x a XOR multiply_mod x b"
proof (induction a arbitrary: x b rule: less_induct)
  case (less a)
  show ?case
  proof (cases "a = 0")
    case True then show ?thesis by (simp add: multiply_mod_0)
  next
    case False
    then have lt: "a div 2 < a" by simp
    show ?thesis
      apply (subst (1 2 3) multiply_mod_unfold)
      apply (simp add: xor_div2 xor_mod2 less[OF lt] times_bit_xor xor.assoc xor.left_commute)
      done
  qed
qed

lemma mm_shift_times_bit: "b < 2 \<Longrightarrow> mm_shift (x * b) = mm_shift x * b"
  by (auto simp: less_2_cases_iff mm_shift_0)

lemma mm_shift_multiply_mod: "mm_shift (multiply_mod x y) = multiply_mod (mm_shift x) y"
proof (induction y arbitrary: x rule: less_induct)
  case (less y)
  show ?case
  proof (cases "y = 0")
    case True then show ?thesis by (simp add: multiply_mod_0 mm_shift_0)
  next
    case False
    then have lt: "y div 2 < y" by simp
    show ?thesis
      apply (subst (1 2) multiply_mod_unfold)
      apply (simp add: mm_shift_xor less[OF lt] mm_shift_times_bit)
      done
  qed
qed

lemma multiply_mod_0_left: "multiply_mod 0 y = 0"
proof (induction y rule: less_induct)
  case (less y)
  show ?case
  proof (cases "y = 0")
    case True then show ?thesis by (simp add: multiply_mod_0)
  next
    case False
    then have lt: "y div 2 < y" by simp
    show ?thesis
      by (subst multiply_mod_unfold) (simp add: mm_shift_0 less[OF lt])
  qed
qed

lemma multiply_mod_times_bit: "b < 2 \<Longrightarrow> multiply_mod (x * b) a = multiply_mod x a * b"
  by (auto simp: less_2_cases_iff multiply_mod_0_left)

lemma multiply_mod_commute_ops:
  "multiply_mod (multiply_mod x a) b = multiply_mod (multiply_mod x b) a"
proof (induction b arbitrary: x rule: less_induct)
  case (less b)
  show ?case
  proof (cases "b = 0")
    case True then show ?thesis by (simp add: multiply_mod_0 multiply_mod_0_left)
  next
    case False
    then have lt: "b div 2 < b" by simp
    have "multiply_mod (multiply_mod x a) b
        = multiply_mod x a * (b mod 2) XOR multiply_mod (multiply_mod (mm_shift x) a) (b div 2)"
      by (subst multiply_mod_unfold) (simp add: mm_shift_multiply_mod)
    also have "\<dots> = multiply_mod (x * (b mod 2)) a XOR multiply_mod (multiply_mod (mm_shift x) (b div 2)) a"
      by (simp add: less[OF lt] multiply_mod_times_bit)
    also have "\<dots> = multiply_mod (x * (b mod 2) XOR multiply_mod (mm_shift x) (b div 2)) a"
      by (simp add: multiply_mod_xor_left)
    also have "\<dots> = multiply_mod (multiply_mod x b) a"
      by (subst (2) multiply_mod_unfold) simp
    finally show ?thesis .
  qed
qed

lemma push_bit_split: "push_bit k (a::nat) = 2 ^ k * (a mod 2) XOR push_bit (Suc k) (a div 2)"
proof -
  have "push_bit k a = push_bit k (take_bit 1 a) XOR push_bit (Suc k) (drop_bit 1 a)"
  proof (rule bit_eqI)
    fix n
    show "bit (push_bit k a) n = bit (push_bit k (take_bit 1 a) XOR push_bit (Suc k) (drop_bit 1 a)) n"
    proof (cases "n = k")
      case True then show ?thesis
        unfolding bit_xor_iff bit_push_bit_iff bit_take_bit_iff bit_drop_bit_eq by simp
    next
      case False
      then have "k \<le> n \<Longrightarrow> Suc (n - Suc k) = n - k" by simp
      with False show ?thesis
        unfolding bit_xor_iff bit_push_bit_iff bit_take_bit_iff bit_drop_bit_eq by auto
    qed
  qed
  then show ?thesis
    by (simp add: push_bit_eq_mult take_bit_eq_mod drop_bit_eq_div mult.commute)
qed

lemma mm_shift_pow2: "k < 31 \<Longrightarrow> mm_shift (2 ^ k) = 2 ^ Suc k"
  by (simp add: mm_shift_alt bit_exp_iff push_bit_eq_mult)

lemma multiply_mod_pow2:
  "push_bit k a < 2 ^ 32 \<Longrightarrow> multiply_mod (2 ^ k) a = push_bit k a"
proof (induction a arbitrary: k rule: less_induct)
  case (less a)
  show ?case
  proof (cases "a div 2 = 0")
    case True
    then have "a = a mod 2" by presburger
    then show ?thesis
      by (subst multiply_mod_unfold, subst push_bit_split) (simp add: True multiply_mod_0)
  next
    case False
    then have lt: "a div 2 < a" and a2: "2 \<le> a" by auto
    have "2 ^ k * 2 \<le> 2 ^ k * a" using a2 by simp
    also have "\<dots> < 2 ^ 32" using less.prems by (simp add: push_bit_eq_mult mult.commute)
    finally have p: "(2::nat) ^ Suc k < 2 ^ 32" by simp
    have "Suc k < 32"
      by (rule power_less_imp_less_exp[where a="2::nat"]) (simp, fact p)
    then have k: "k < 31" by simp
    have "push_bit (Suc k) (a div 2) \<le> push_bit k a"
      by (simp add: push_bit_eq_mult)
    then have b: "push_bit (Suc k) (a div 2) < 2 ^ 32" using less.prems by simp
    show ?thesis
      apply (subst multiply_mod_unfold)
      apply (subst push_bit_split)
      apply (simp only: mm_shift_pow2[OF k] less.IH[OF lt b])
      done
  qed
qed

lemma multiply_mod_1_left: "a < 2 ^ 32 \<Longrightarrow> multiply_mod 1 a = a"
  using multiply_mod_pow2[of 0 a] by simp

lemma multiply_mod_1_right: "multiply_mod x 1 = x"
  by (subst multiply_mod_unfold) (simp add: multiply_mod_0)

lemma multiply_mod_1_POLYNOMIAL: "multiply_mod 1 POLYNOMIAL = 0"
  by (simp add: multiply_mod_def multiply_mod_loop.simps mm_shift_def POLYNOMIAL_def Let_def)

lemma multiply_mod_POLYNOMIAL:
  assumes "a < 2 ^ 32" shows "multiply_mod a POLYNOMIAL = 0"
proof -
  have "multiply_mod a POLYNOMIAL = multiply_mod (multiply_mod 1 a) POLYNOMIAL"
    by (simp only: multiply_mod_1_left[OF assms])
  also have "\<dots> = multiply_mod (multiply_mod 1 POLYNOMIAL) a"
    by (rule multiply_mod_commute_ops)
  finally show ?thesis
    by (simp only: multiply_mod_1_POLYNOMIAL multiply_mod_0_left)
qed

lemma multiply_mod_double: "multiply_mod a (push_bit 1 b) = multiply_mod (mm_shift a) b"
  by (subst multiply_mod_unfold) simp

lemma multiply_mod_mm_shift_right:
  assumes "a < 2 ^ 32"
  shows "multiply_mod a (mm_shift b) = multiply_mod (mm_shift a) b"
  unfolding mm_shift_alt[of b] multiply_mod_xor_right multiply_mod_double
  by (simp add: multiply_mod_POLYNOMIAL[OF assms] multiply_mod_0)

lemma multiply_mod_assoc:
  assumes "a < 2 ^ 32"
  shows "multiply_mod (multiply_mod a b) c = multiply_mod a (multiply_mod b c)"
proof (induction c arbitrary: b rule: less_induct)
  case (less c)
  show ?case
  proof (cases "c = 0")
    case True then show ?thesis by (simp add: multiply_mod_0)
  next
    case False
    then have lt: "c div 2 < c" by simp
    have "multiply_mod (multiply_mod a b) c
        = multiply_mod a b * (c mod 2) XOR multiply_mod (multiply_mod a (mm_shift b)) (c div 2)"
      by (subst multiply_mod_unfold)
         (simp add: mm_shift_multiply_mod multiply_mod_mm_shift_right[OF assms])
    also have "\<dots> = multiply_mod a b * (c mod 2) XOR multiply_mod a (multiply_mod (mm_shift b) (c div 2))"
      by (simp add: less[OF lt])
    also have "multiply_mod a b * (c mod 2) = multiply_mod a (b * (c mod 2))"
      by (cases "c mod 2 = 0") (auto simp: multiply_mod_0 dest: not_mod_2_eq_0_eq_1[THEN iffD1])
    also have "multiply_mod a (b * (c mod 2)) XOR multiply_mod a (multiply_mod (mm_shift b) (c div 2))
        = multiply_mod a (b * (c mod 2) XOR multiply_mod (mm_shift b) (c div 2))"
      by (simp add: multiply_mod_xor_right)
    also have "\<dots> = multiply_mod a (multiply_mod b c)"
      by (subst (2) multiply_mod_unfold) simp
    finally show ?thesis .
  qed
qed

lemma bit_length_0: "bit_length 0 = 0"
  by (simp add: bit_length.simps)

lemma bit_length_pos: "x \<noteq> 0 \<Longrightarrow> bit_length x = Suc (bit_length (x div 2))"
  by (subst bit_length.simps) simp

lemma bit_length_bound: "x < 2 ^ bit_length x"
proof (induction x rule: bit_length.induct)
  case (1 n)
  show ?case
  proof (cases "n = 0")
    case True then show ?thesis by (simp add: bit_length_0)
  next
    case False
    with 1 have "n div 2 < 2 ^ bit_length (n div 2)" by simp
    then show ?thesis using False by (simp add: bit_length_pos)
  qed
qed

lemma bit_length_lower: "x \<noteq> 0 \<Longrightarrow> 2 ^ (bit_length x - 1) \<le> x"
proof (induction x rule: bit_length.induct)
  case (1 n)
  have bl: "bit_length n = Suc (bit_length (n div 2))"
    using 1(2) by (rule bit_length_pos)
  show ?case
  proof (cases "n div 2 = 0")
    case True
    then show ?thesis using 1(2) by (simp add: bl bit_length_0)
  next
    case False
    with 1 have a: "2 ^ (bit_length (n div 2) - 1) \<le> n div 2" by simp
    obtain m where m: "bit_length (n div 2) = Suc m"
      using bit_length_pos[OF False] by blast
    have "2 * 2 ^ m \<le> 2 * (n div 2)" using a by (simp add: m)
    also have "\<dots> \<le> n" by simp
    finally show ?thesis by (simp add: bl m)
  qed
qed

lemma bit_length_le: "x < 2 ^ n \<Longrightarrow> bit_length x \<le> n"
proof (rule ccontr)
  assume a: "x < 2 ^ n" and b: "\<not> bit_length x \<le> n"
  have nz: "x \<noteq> 0" using b by (cases "x = 0") (simp_all add: bit_length_0)
  from b have "n \<le> bit_length x - 1" by simp
  then have "(2::nat) ^ n \<le> 2 ^ (bit_length x - 1)" by (rule power_increasing) simp
  with bit_length_lower[OF nz] a show False by linarith
qed

lemma bit_above_false: "(a::nat) < 2 ^ m \<Longrightarrow> m \<le> n \<Longrightarrow> \<not> bit a n"
  by (metis bit_take_bit_iff leD take_bit_nat_eq_self)

lemma less_exp_bitI: "(\<And>n. m \<le> n \<Longrightarrow> \<not> bit (a::nat) n) \<Longrightarrow> a < 2 ^ m"
proof -
  assume a: "\<And>n. m \<le> n \<Longrightarrow> \<not> bit a n"
  have "take_bit m a = a"
  proof (rule bit_eqI)
    fix n show "bit (take_bit m a) n = bit a n"
      using a[of n] by (cases "m \<le> n") (auto simp: bit_take_bit_iff)
  qed
  then show ?thesis by (simp add: take_bit_nat_eq_self_iff)
qed

lemma xor_top_bit:
  assumes "(a::nat) < 2 ^ Suc m" "b < 2 ^ Suc m" "bit a m" "bit b m"
  shows "a XOR b < 2 ^ m"
proof (rule less_exp_bitI)
  fix n assume "m \<le> n"
  show "\<not> bit (a XOR b) n"
  proof (cases "n = m")
    case True then show ?thesis using assms(3,4) by (simp add: bit_xor_iff)
  next
    case False
    with \<open>m \<le> n\<close> have "Suc m \<le> n" by simp
    then show ?thesis
      using bit_above_false[OF assms(1)] bit_above_false[OF assms(2)] by (simp add: bit_xor_iff)
  qed
qed

lemma clear_top_bit:
  assumes "(a::nat) < 2 ^ Suc m" "\<not> bit a m"
  shows "a < 2 ^ m"
proof (rule less_exp_bitI)
  fix n assume "m \<le> n"
  show "\<not> bit a n"
  proof (cases "n = m")
    case True then show ?thesis using assms(2) by simp
  next
    case False
    with \<open>m \<le> n\<close> have "Suc m \<le> n" by simp
    then show ?thesis using bit_above_false[OF assms(1)] by simp
  qed
qed

lemma bit_length_top: "y \<noteq> 0 \<Longrightarrow> bit y (bit_length y - 1)"
proof (rule ccontr)
  assume y: "y \<noteq> 0" and nb: "\<not> bit y (bit_length y - 1)"
  have "bit_length y \<noteq> 0" using y by (simp add: bit_length_pos)
  then have "y < 2 ^ Suc (bit_length y - 1)" using bit_length_bound[of y] by simp
  from clear_top_bit[OF this nb] bit_length_lower[OF y] show False by simp
qed

lemma divide_loop_Suc:
  "divide_loop (Suc i) ydeg y x z =
     (if bit x (i + ydeg)
      then divide_loop i ydeg y (x XOR push_bit i y) (z OR push_bit i 1)
      else divide_loop i ydeg y x z)"
  by (simp only: divide_loop.simps and1_ne0_iff)

lemma exp_bit_length_sub: "x < 2 ^ (bit_length x - d + d)"
  by (rule less_le_trans[OF bit_length_bound]) (rule power_increasing, simp_all)

lemma divide_loop_remainder:
  assumes "y \<noteq> 0" "ydeg = bit_length y - 1"
  shows "x < 2 ^ (n + ydeg) \<Longrightarrow> snd (divide_loop n ydeg y x z) < 2 ^ ydeg"
proof (induction n arbitrary: x z)
  case 0
  then show ?case by simp
next
  case (Suc i)
  have ytop: "bit y ydeg" unfolding assms(2) by (rule bit_length_top[OF assms(1)])
  have ylt: "y < 2 ^ Suc ydeg"
    using bit_length_bound[of y] assms by (simp add: bit_length_pos)
  show ?case
  proof (cases "bit x (i + ydeg)")
    case True
    have "push_bit i y < 2 ^ Suc (i + ydeg)"
      using ylt by (simp add: push_bit_eq_mult power_add)
    moreover have "bit (push_bit i y) (i + ydeg)"
      using ytop by (simp add: bit_push_bit_iff)
    ultimately have x': "x XOR push_bit i y < 2 ^ (i + ydeg)"
      using Suc.prems True by (intro xor_top_bit[of x "i + ydeg" "push_bit i y"]) simp_all
    have step: "divide_loop (Suc i) ydeg y x z
        = divide_loop i ydeg y (x XOR push_bit i y) (z OR push_bit i 1)"
      using True by (subst divide_loop_Suc) (rule if_P)
    show ?thesis by (subst step) (rule Suc.IH[OF x'])
  next
    case False
    have x': "x < 2 ^ (i + ydeg)"
      using Suc.prems False by (intro clear_top_bit[of x "i + ydeg"]) simp_all
    have step: "divide_loop (Suc i) ydeg y x z = divide_loop i ydeg y x z"
      using False by (subst divide_loop_Suc) (rule if_not_P)
    show ?thesis by (subst step) (rule Suc.IH[OF x'])
  qed
qed

lemma divide_loop_identity:
  assumes "y \<noteq> 0" "ydeg = bit_length y - 1"
  shows "x < 2 ^ 32 \<Longrightarrow> x < 2 ^ (n + ydeg) \<Longrightarrow> take_bit n z = 0 \<Longrightarrow>
    multiply_mod (fst (divide_loop n ydeg y x z)) y XOR snd (divide_loop n ydeg y x z)
      = multiply_mod z y XOR x"
proof (induction n arbitrary: x z)
  case 0
  then show ?case by simp
next
  case (Suc i)
  have ytop: "bit y ydeg" unfolding assms(2) by (rule bit_length_top[OF assms(1)])
  have ylt: "y < 2 ^ Suc ydeg"
    using bit_length_bound[of y] assms by (simp add: bit_length_pos)
  have "take_bit i (take_bit (Suc i) z) = take_bit i z"
    by (simp only: take_bit_take_bit min.absorb1[OF le_SucI[OF order_refl]])
  then have tz: "take_bit i z = 0"
    by (simp only: Suc.prems(3) take_bit_of_0)
  show ?case
  proof (cases "bit x (i + ydeg)")
    case True
    have p1: "push_bit i y < 2 ^ Suc (i + ydeg)"
      using ylt by (simp add: push_bit_eq_mult power_add)
    have p2: "bit (push_bit i y) (i + ydeg)"
      using ytop by (simp add: bit_push_bit_iff)
    have x': "x XOR push_bit i y < 2 ^ (i + ydeg)"
      using Suc.prems True p1 p2 by (intro xor_top_bit[of x "i + ydeg" "push_bit i y"]) simp_all
    have xge: "(2::nat) ^ (i + ydeg) \<le> x"
      using True bit_above_false[of x "i + ydeg" "i + ydeg"] by (cases "x < 2 ^ (i + ydeg)") simp_all
    then have p: "(2::nat) ^ (i + ydeg) < 2 ^ 32" using Suc.prems(1) by simp
    have "i + ydeg < 32"
      by (rule power_less_imp_less_exp[where a="2::nat"]) (simp, fact p)
    then have "Suc (i + ydeg) \<le> 32" by simp
    then have "(2::nat) ^ Suc (i + ydeg) \<le> 2 ^ 32" by (rule power_increasing) simp
    with p1 have p32: "push_bit i y < 2 ^ 32" by simp
    have x32: "x XOR push_bit i y < 2 ^ 32" using x' p by simp
    have nb: "\<not> bit z i"
      using Suc.prems(3) bit_take_bit_iff[of "Suc i" z i] by simp
    have "z AND push_bit i 1 = 0"
      by (rule bit_eqI) (use nb in \<open>auto simp: bit_and_iff bit_push_bit_iff bit_1_iff bit_exp_iff\<close>)
    then have zor: "z OR push_bit i 1 = z XOR 2 ^ i"
      by (simp add: disjunctive_xor_eq_or)
    have tz': "take_bit i (z OR push_bit i 1) = 0"
      by (simp add: tz take_bit_push_bit)
    have mz: "multiply_mod (z OR push_bit i 1) y = multiply_mod z y XOR push_bit i y"
      by (simp only: zor multiply_mod_xor_left multiply_mod_pow2[OF p32])
    have "(multiply_mod z y XOR push_bit i y) XOR (x XOR push_bit i y) = multiply_mod z y XOR x"
      by (rule bit_eqI) (auto simp: bit_xor_iff)
    then have e: "multiply_mod (z OR push_bit i 1) y XOR (x XOR push_bit i y) = multiply_mod z y XOR x"
      by (simp only: mz)
    have step: "divide_loop (Suc i) ydeg y x z
        = divide_loop i ydeg y (x XOR push_bit i y) (z OR push_bit i 1)"
      using True by (subst divide_loop_Suc) (rule if_P)
    show ?thesis
      by (subst (1 2) step) (rule trans[OF Suc.IH[OF x32 x' tz'] e])
  next
    case False
    have x': "x < 2 ^ (i + ydeg)"
      using Suc.prems False by (intro clear_top_bit[of x "i + ydeg"]) simp_all
    have step: "divide_loop (Suc i) ydeg y x z = divide_loop i ydeg y x z"
      using False by (subst divide_loop_Suc) (rule if_not_P)
    show ?thesis by (subst (1 2) step) (rule Suc.IH[OF Suc.prems(1) x' tz])
  qed
qed


lemma bit_length_nonzero: "y \<noteq> 0 \<Longrightarrow> 0 < bit_length y"
  by (simp add: bit_length_pos)

lemma divide_and_remainder_Inr:
  "y \<noteq> 0 \<Longrightarrow> \<exists>q r. divide_and_remainder x y = Inr (q, r)"
  by (simp add: divide_and_remainder_def Let_def)

lemma divide_and_remainder_degree:
  assumes "divide_and_remainder x y = Inr (q, r)"
  shows "r < 2 ^ (bit_length y - 1)"
proof -
  have y: "y \<noteq> 0" using assms by (auto simp: divide_and_remainder_def split: if_splits)
  show ?thesis
  proof (cases "x = 0")
    case True
    then show ?thesis using assms y by (simp add: divide_and_remainder_def)
  next
    case False
    from divide_loop_remainder[OF y refl exp_bit_length_sub, of x 0] show ?thesis
      using assms y False by (simp add: divide_and_remainder_def Let_def)
  qed
qed

lemma divide_and_remainder_less:
  assumes "divide_and_remainder x y = Inr (q, r)"
  shows "r < y"
proof -
  have y: "y \<noteq> 0" using assms by (auto simp: divide_and_remainder_def split: if_splits)
  from divide_and_remainder_degree[OF assms] bit_length_lower[OF y] show ?thesis by simp
qed

lemma divide_and_remainder_identity:
  assumes "divide_and_remainder x y = Inr (q, r)" "x < 2 ^ 32"
  shows "x = multiply_mod q y XOR r"
proof -
  have y: "y \<noteq> 0" using assms by (auto simp: divide_and_remainder_def split: if_splits)
  show ?thesis
  proof (cases "x = 0")
    case True
    then show ?thesis using assms y by (simp add: divide_and_remainder_def multiply_mod_0_left)
  next
    case False
    from divide_loop_identity[OF y refl assms(2) exp_bit_length_sub, of 0] show ?thesis
      using assms y False by (simp add: divide_and_remainder_def Let_def multiply_mod_0_left)
  qed
qed

termination euclid_loop
  by (relation "measure (\<lambda>(x, y, a, b). y)") (auto dest: divide_and_remainder_less)

declare euclid_loop.simps [simp del]

subsection \<open>Evaluating the engine on numerals\<close>

lemma reverse32_loop_numeral:
  "reverse32_loop (numeral k) x y =
     reverse32_loop (pred_numeral k) (drop_bit 1 x) (push_bit 1 y OR (x AND 1))"
  by (simp add: numeral_eq_Suc)

lemma divide_loop_numeral:
  "divide_loop (numeral k) ydeg y x z =
     (if drop_bit (pred_numeral k + ydeg) x AND 1 \<noteq> 0
      then divide_loop (pred_numeral k) ydeg y (x XOR push_bit (pred_numeral k) y)
             (z OR push_bit (pred_numeral k) 1)
      else divide_loop (pred_numeral k) ydeg y x z)"
  by (simp add: numeral_eq_Suc)

lemma multiply_mod_loop_eval:
  "multiply_mod_loop x 0 z = z"
  "y \<noteq> 0 \<Longrightarrow> multiply_mod_loop x y z =
     multiply_mod_loop (mm_shift x) (drop_bit 1 y) (z XOR x * (y AND 1))"
  by (subst multiply_mod_loop.simps, simp)+

lemma pow_mod_loop_eval:
  "pow_mod_loop x a 0 = x"
  "b \<noteq> 0 \<Longrightarrow> pow_mod_loop x a b =
     pow_mod_loop (if b AND 1 \<noteq> 0 then multiply_mod x a else x) (multiply_mod a a)
       (drop_bit 1 b)"
  by (subst pow_mod_loop.simps, simp)+

lemma euclid_loop_eval:
  "euclid_loop x 0 a b =
     (if x = 1 then Inr a else Inl (ValueError ''Reciprocal does not exist''))"
  "y \<noteq> 0 \<Longrightarrow> euclid_loop x y a b =
     (case divide_and_remainder x y of
        Inl e \<Rightarrow> Inl e
      | Inr (q, r) \<Rightarrow> euclid_loop y r b (a XOR multiply_mod q b))"
  by (subst euclid_loop.simps, simp)+

lemma bit_length_eval:
  "bit_length 0 = 0"
  "bit_length 1 = 1"
  "bit_length (Suc 0) = 1"
  "bit_length (numeral Num.One) = 1"
  "bit_length (numeral (Num.Bit0 k)) = bit_length (numeral k) + 1"
  "bit_length (numeral (Num.Bit1 k)) = bit_length (numeral k) + 1"
  by (subst bit_length.simps, simp add: bit_length_0)+

lemmas engine_eval =
  multiply_mod_def multiply_mod_loop_eval mm_shift_def POLYNOMIAL_def Let_def
  pow_mod_loop_eval euclid_loop_eval divide_and_remainder_def bit_length_eval
  reverse32_def reverse32_loop_numeral divide_loop_numeral numeral_2_eq_2[symmetric]

lemma divide_POLYNOMIAL_value:
  "divide_and_remainder 0x104C11DB7 0x04C11DB7 = Inr (76, 25881363)"
  by (simp add: engine_eval)

lemma multiply_mod_76_value: "multiply_mod 76 0x04C11DB7 = 25881363"
  by (simp add: engine_eval)

lemma multiply_mod_unreduced_values:
  "multiply_mod 4294967296 2147483648 = 9223372036854775808"
  "multiply_mod 9223372036854775808 2 = 18446744073709551616"
  "multiply_mod 2147483648 2 = 0x04C11DB7"
  "multiply_mod 4294967296 0x04C11DB7 = 342587718473089024"
  by (simp_all add: engine_eval)

subsection \<open>Claim C4\<close>

lemma degree_less_iff: "degree r < degree b \<longleftrightarrow> bit_length r < bit_length b"
  by (simp add: degree_def)

text \<open>
  C4, as the code has it. For a nonzero divisor \<open>b\<close>, \<open>divide_and_remainder a b\<close>
  returns a quotient \<open>q\<close> and a remainder \<open>r\<close> with \<open>degree r < degree b\<close>, for every
  \<open>a\<close>; the identity \<open>a = multiply_mod q b XOR r\<close> holds when \<open>a\<close> is a reduced
  polynomial (\<open>a < 2 ^ 32\<close>), since \<open>multiply_mod\<close> reduces modulo the generator and
  the division does not. \<open>multiply_mod\<close> distributes over XOR in both arguments for
  all operands, and is associative when its first operand is reduced.
\<close>

theorem C4_gf2_arithmetic:
  "(b \<noteq> 0 \<longrightarrow>
      (\<exists>q r. divide_and_remainder a b = Inr (q, r) \<and> degree r < degree b \<and>
         (a < 2 ^ 32 \<longrightarrow> a = multiply_mod q b XOR r)))
   \<and> (a < 2 ^ 32 \<longrightarrow>
        multiply_mod (multiply_mod a b) c = multiply_mod a (multiply_mod b c))
   \<and> multiply_mod (a XOR b) c = multiply_mod a c XOR multiply_mod b c
   \<and> multiply_mod a (b XOR c) = multiply_mod a b XOR multiply_mod a c"
proof (intro conjI impI)
  assume b: "b \<noteq> 0"
  then obtain q r where qr: "divide_and_remainder a b = Inr (q, r)"
    using divide_and_remainder_Inr by blast
  have "r < 2 ^ (bit_length b - 1)"
    by (rule divide_and_remainder_degree[OF qr])
  then have "bit_length r \<le> bit_length b - 1"
    by (rule bit_length_le)
  moreover have "0 < bit_length b"
    by (rule bit_length_nonzero[OF b])
  ultimately have "degree r < degree b"
    by (simp add: degree_less_iff)
  moreover have "a < 2 ^ 32 \<longrightarrow> a = multiply_mod q b XOR r"
    using divide_and_remainder_identity[OF qr] by blast
  ultimately show "\<exists>q r. divide_and_remainder a b = Inr (q, r) \<and> degree r < degree b \<and>
         (a < 2 ^ 32 \<longrightarrow> a = multiply_mod q b XOR r)"
    using qr by blast
next
  assume "a < 2 ^ 32"
  then show "multiply_mod (multiply_mod a b) c = multiply_mod a (multiply_mod b c)"
    by (rule multiply_mod_assoc)
next
  show "multiply_mod (a XOR b) c = multiply_mod a c XOR multiply_mod b c"
    by (rule multiply_mod_xor_left)
next
  show "multiply_mod a (b XOR c) = multiply_mod a b XOR multiply_mod a c"
    by (rule multiply_mod_xor_right)
qed

theorem C4_gf2_arithmetic_witness:
  "(25881363::nat) \<noteq> 0 \<and> (79764919::nat) < 2 ^ 32
   \<and> (\<exists>q r. divide_and_remainder 79764919 25881363 = Inr (q, r)
         \<and> degree r < degree 25881363
         \<and> 79764919 = multiply_mod q 25881363 XOR r)
   \<and> multiply_mod (multiply_mod 79764919 25881363) 76
       = multiply_mod 79764919 (multiply_mod 25881363 76)"
  using C4_gf2_arithmetic[of 25881363 79764919 76] by simp

text \<open>
  The claim as stated fails on operands the program itself uses: the first
  division of \<open>reciprocal_mod\<close> divides the 33-bit generator, and \<open>multiply_mod\<close> of
  its quotient and divisor is reduced, so the identity does not give the generator
  back. Associativity fails when the first operand is not reduced.
\<close>

theorem C4_counterexample:
  "divide_and_remainder POLYNOMIAL 0x04C11DB7 = Inr (76, 25881363)
   \<and> POLYNOMIAL \<noteq> multiply_mod 76 0x04C11DB7 XOR 25881363
   \<and> multiply_mod (multiply_mod (2 ^ 32) (2 ^ 31)) 2
       \<noteq> multiply_mod (2 ^ 32) (multiply_mod (2 ^ 31) 2)"
  by (simp add: divide_POLYNOMIAL_value multiply_mod_76_value
      multiply_mod_unreduced_values POLYNOMIAL_def)
section \<open>Evaluating the reader and the emitter on concrete archives\<close>








section \<open>The forcer\<close>

subsection \<open>Bit reversal\<close>

lemma reverse32_step_bit:
  "bit (push_bit 1 y OR (x AND 1)) k = (if k = 0 then bit x 0 else bit y (k - 1))"
  for x y :: nat
proof -
  have a: "bit (x AND 1) k = (k = 0 \<and> bit x 0)"
    unfolding bit_and_iff bit_1_iff by auto
  have b: "bit (push_bit 1 y) k = (k \<noteq> 0 \<and> bit y (k - 1))"
    unfolding bit_push_bit_iff by auto
  show ?thesis unfolding bit_or_iff a b by auto
qed

lemma reverse32_loop_bit:
  "bit (reverse32_loop n x y) m
     = (if m < n then bit x (n - 1 - m) else bit y (m - n))"
proof (induction n arbitrary: x y m)
  case 0
  then show ?case by simp
next
  case (Suc n)
  consider "m < n" | "m = n" | "n < m" by linarith
  then show ?case
  proof cases
    case 1
    then have "Suc (n - 1 - m) = n - m" by simp
    then show ?thesis using 1 by (simp add: Suc.IH bit_drop_bit_eq)
  next
    case 2
    then show ?thesis
      unfolding reverse32_loop.simps Suc.IH reverse32_step_bit by simp
  next
    case 3
    then obtain k where k: "m - n = Suc k" by (metis Suc_diff_Suc)
    then have "m - Suc n = k" by simp
    then show ?thesis using 3 k
      unfolding reverse32_loop.simps Suc.IH reverse32_step_bit by simp
  qed
qed

lemma reverse32_bit: "bit (reverse32 x) m = (m < 32 \<and> bit x (31 - m))"
  unfolding reverse32_def reverse32_loop_bit by simp

lemma reverse32_less: "reverse32 x < 2 ^ 32"
  by (rule less_exp_bitI) (simp add: reverse32_bit)

lemma reverse32_reverse32: "x < 2 ^ 32 \<Longrightarrow> reverse32 (reverse32 x) = x"
proof (rule bit_eqI)
  fix n
  assume x: "x < 2 ^ 32"
  show "bit (reverse32 (reverse32 x)) n = bit x n"
  proof (cases "n < 32")
    case True
    then have "31 - (31 - n) = n" "31 - n < 32" by arith+
    then show ?thesis using True by (simp add: reverse32_bit)
  next
    case False
    then show ?thesis using bit_above_false[OF x, of n] by (simp add: reverse32_bit)
  qed
qed

lemma reverse32_xor: "reverse32 (a XOR b) = reverse32 a XOR reverse32 b"
  by (rule bit_eqI) (auto simp: reverse32_bit bit_xor_iff)

lemma reverse32_0: "reverse32 0 = 0"
  by (rule bit_eqI) (simp add: reverse32_bit)

subsection \<open>One step of the checksum register\<close>

lemma crc32_bit_alt:
  "crc32_bit c = drop_bit 1 c XOR (if bit c 0 then 0xEDB88320 else 0)"
  unfolding crc32_bit_def using and1_ne0_iff[of 0 c] by simp

lemma crc32_bit_xor: "crc32_bit (a XOR b) = crc32_bit a XOR crc32_bit b"
  unfolding crc32_bit_alt drop_bit_xor bit_xor_iff
  by (simp add: xor.assoc xor.left_commute)

lemma crc32_bit_0: "crc32_bit 0 = 0"
  by (simp add: crc32_bit_alt)

lemma xor_less_exp: "(a::nat) < 2 ^ n \<Longrightarrow> b < 2 ^ n \<Longrightarrow> a XOR b < 2 ^ n"
  by (rule less_exp_bitI) (simp add: bit_xor_iff bit_above_false)

lemma crc32_bit_less: "c < 2 ^ 32 \<Longrightarrow> crc32_bit c < 2 ^ 32"
proof -
  assume c: "c < 2 ^ 32"
  have d: "drop_bit 1 c < 2 ^ 32"
    using c by (simp add: drop_bit_eq_div)
  have "(if bit c 0 then 0xEDB88320 else 0 :: nat) < 2 ^ 32" by simp
  then show ?thesis unfolding crc32_bit_alt by (rule xor_less_exp[OF d])
qed

lemma reverse32_generator: "reverse32 0xEDB88320 = 0x04C11DB7"
  by (simp add: engine_eval)

lemma push_bit_reverse32:
  assumes c: "c < 2 ^ 32"
  shows "push_bit 1 (reverse32 c) = reverse32 (drop_bit 1 c) XOR (if bit c 0 then 2 ^ 32 else 0)"
proof (rule bit_eqI)
  fix m :: nat
  have top: "\<not> bit c 32" using bit_above_false[OF c, of 32] by simp
  have A: "bit (push_bit 1 (reverse32 c)) m = (m \<noteq> 0 \<and> m - 1 < 32 \<and> bit c (31 - (m - 1)))"
    unfolding bit_push_bit_iff reverse32_bit by auto
  have B: "bit (reverse32 (drop_bit 1 c)) m = (m < 32 \<and> bit c (1 + (31 - m)))"
    unfolding reverse32_bit bit_drop_bit_eq by simp
  have C: "bit (if bit c 0 then 2 ^ 32 else 0 :: nat) m = (bit c 0 \<and> m = 32)"
  proof (cases "bit c 0")
    case True
    have "bit (2 ^ 32 :: nat) m = (m = 32)"
      unfolding bit_exp_iff by auto
    then show ?thesis unfolding if_P[OF True] using True by blast
  next
    case False
    then show ?thesis by simp
  qed
  consider "m = 0" | "0 < m" "m < 32" | "m = 32" | "32 < m" by linarith
  then show "bit (push_bit 1 (reverse32 c)) m
      = bit (reverse32 (drop_bit 1 c) XOR (if bit c 0 then 2 ^ 32 else 0)) m"
    unfolding bit_xor_iff A B C
  proof cases
    case 1
    then show "(m \<noteq> 0 \<and> m - 1 < 32 \<and> bit c (31 - (m - 1)))
        = ((m < 32 \<and> bit c (1 + (31 - m))) \<noteq> (bit c 0 \<and> m = 32))"
      using top by simp
  next
    case 2
    then have "31 - (m - 1) = 1 + (31 - m)" "m - 1 < 32" by arith+
    then show "(m \<noteq> 0 \<and> m - 1 < 32 \<and> bit c (31 - (m - 1)))
        = ((m < 32 \<and> bit c (1 + (31 - m))) \<noteq> (bit c 0 \<and> m = 32))"
      using 2 by simp
  next
    case 3
    then show "(m \<noteq> 0 \<and> m - 1 < 32 \<and> bit c (31 - (m - 1)))
        = ((m < 32 \<and> bit c (1 + (31 - m))) \<noteq> (bit c 0 \<and> m = 32))"
      by simp
  next
    case 4
    then have "\<not> m - 1 < 32" by arith
    then show "(m \<noteq> 0 \<and> m - 1 < 32 \<and> bit c (31 - (m - 1)))
        = ((m < 32 \<and> bit c (1 + (31 - m))) \<noteq> (bit c 0 \<and> m = 32))"
      using 4 by simp
  qed
qed

lemma POLYNOMIAL_split: "POLYNOMIAL = 2 ^ 32 XOR 0x04C11DB7"
  by (simp add: POLYNOMIAL_def)

lemma xor_cancel_mid: "(a XOR p) XOR (p XOR g) = a XOR (g::nat)"
  by (rule bit_eqI) (auto simp: bit_xor_iff)

lemma reverse32_crc32_bit:
  assumes c: "c < 2 ^ 32"
  shows "reverse32 (crc32_bit c) = mm_shift (reverse32 c)"
proof -
  have b31: "bit (reverse32 c) 31 = bit c 0" by (simp add: reverse32_bit)
  show ?thesis
  proof (cases "bit c 0")
    case True
    have "mm_shift (reverse32 c)
        = (reverse32 (drop_bit 1 c) XOR 2 ^ 32) XOR (2 ^ 32 XOR 0x04C11DB7)"
      by (simp only: mm_shift_alt b31 True if_True push_bit_reverse32[OF c] POLYNOMIAL_split)
    also have "\<dots> = reverse32 (drop_bit 1 c) XOR 0x04C11DB7"
      by (rule xor_cancel_mid)
    also have "\<dots> = reverse32 (crc32_bit c)"
      by (simp only: crc32_bit_alt True if_True reverse32_xor reverse32_generator)
    finally show ?thesis by (rule sym)
  next
    case False
    have "mm_shift (reverse32 c) = (reverse32 (drop_bit 1 c) XOR 0) XOR 0"
      by (simp only: mm_shift_alt b31 False if_False push_bit_reverse32[OF c])
    moreover have "reverse32 (crc32_bit c) = reverse32 (drop_bit 1 c XOR 0)"
      by (simp only: crc32_bit_alt False if_False)
    ultimately show ?thesis by simp
  qed
qed

lemma crc32_bit_funpow_less: "c < 2 ^ 32 \<Longrightarrow> (crc32_bit ^^ n) c < 2 ^ 32"
proof (induction n)
  case 0
  then show ?case by simp
next
  case (Suc n)
  then show ?case using crc32_bit_less[of "(crc32_bit ^^ n) c"] by simp
qed

lemma reverse32_crc32_bit_funpow:
  "c < 2 ^ 32 \<Longrightarrow> reverse32 ((crc32_bit ^^ n) c) = (mm_shift ^^ n) (reverse32 c)"
proof (induction n)
  case 0
  then show ?case by simp
next
  case (Suc n)
  then show ?case
    using reverse32_crc32_bit[OF crc32_bit_funpow_less[of c n]] by simp
qed

lemma mm_shift_funpow: "(mm_shift ^^ n) x = multiply_mod x (2 ^ n)"
proof (induction n arbitrary: x)
  case 0
  then show ?case using multiply_mod_1_right[of x] by simp
next
  case (Suc n)
  have "multiply_mod x (2 ^ Suc n) = multiply_mod (mm_shift x) (2 ^ n)"
    by (subst multiply_mod_unfold) (simp add: multiply_mod_0_left)
  then show ?case by (simp add: Suc.IH mm_shift_multiply_mod)
qed


subsection \<open>The checksum register over bytes\<close>

lemma crc32_bit_funpow_xor:
  "(crc32_bit ^^ n) (a XOR b) = (crc32_bit ^^ n) a XOR (crc32_bit ^^ n) b"
  by (induction n) (simp_all add: crc32_bit_xor)

lemma crc32_bit_push_bit: "crc32_bit (push_bit (Suc k) h) = push_bit k h"
proof -
  have "\<not> bit (push_bit (Suc k) h) 0"
    unfolding bit_push_bit_iff by simp
  moreover have "drop_bit 1 (push_bit (Suc k) h) = push_bit k h"
  proof -
    have "push_bit (Suc k) h = 2 * push_bit k h"
      by (simp add: push_bit_eq_mult)
    then show ?thesis by (simp add: drop_bit_eq_div)
  qed
  ultimately show ?thesis unfolding crc32_bit_alt by simp
qed

lemma crc32_bit_funpow_push_bit: "(crc32_bit ^^ n) (push_bit n h) = h"
proof (induction n)
  case 0
  then show ?case by simp
next
  case (Suc n)
  have "(crc32_bit ^^ Suc n) (push_bit (Suc n) h) = (crc32_bit ^^ n) (crc32_bit (push_bit (Suc n) h))"
    by (simp only: funpow_Suc_right o_apply)
  then show ?case unfolding crc32_bit_push_bit Suc.IH .
qed

lemma crc32_byte_funpow: "crc32_byte c b = (crc32_bit ^^ 8) (c XOR b)"
  unfolding crc32_byte_def by (simp add: eval_nat_numeral)

lemma crc32_byte_xor:
  "crc32_byte (c XOR d) (b XOR e) = crc32_byte c b XOR crc32_byte d e"
proof -
  have "(c XOR d) XOR (b XOR e) = (c XOR b) XOR (d XOR e)"
    by (rule bit_eqI) (auto simp: bit_xor_iff)
  then show ?thesis unfolding crc32_byte_funpow crc32_bit_funpow_xor[symmetric] by simp
qed

lemma crc32_byte_push_bit: "crc32_byte c (b XOR push_bit 8 h) = crc32_byte c b XOR h"
proof -
  have "c XOR (b XOR push_bit 8 h) = (c XOR b) XOR push_bit 8 h"
    by (rule bit_eqI) (auto simp: bit_xor_iff)
  then show ?thesis
    unfolding crc32_byte_funpow by (simp only: crc32_bit_funpow_xor crc32_bit_funpow_push_bit)
qed

lemma foldl_crc32_byte_xor:
  "length ts = length ws \<Longrightarrow>
     foldl crc32_byte (c XOR d) (map2 (XOR) ts ws)
       = foldl crc32_byte c ts XOR foldl crc32_byte d ws"
proof (induction ts ws arbitrary: c d rule: list_induct2)
  case Nil
  then show ?case by simp
next
  case (Cons t ts w ws)
  show ?case by (simp add: crc32_byte_xor Cons.IH)
qed

lemma low_byte: "(x::nat) = (x AND 0xFF) XOR push_bit 8 (drop_bit 8 x)"
proof -
  have m: "(0xFF::nat) = mask 8" by (simp add: mask_eq_exp_minus_1)
  show ?thesis
    unfolding m by (rule bit_eqI) (auto simp: bit_xor_iff bit_and_iff bit_mask_iff
        bit_push_bit_iff bit_drop_bit_eq)
qed

lemma top_byte: "(x::nat) < 2 ^ 32 \<Longrightarrow> drop_bit 24 x AND 0xFF = drop_bit 24 x"
proof -
  assume x: "x < 2 ^ 32"
  have m: "(0xFF::nat) = mask 8" by (simp add: mask_eq_exp_minus_1)
  show ?thesis
    unfolding m
  proof (rule bit_eqI)
    fix n
    show "bit (drop_bit 24 x AND mask 8) n = bit (drop_bit 24 x) n"
      using bit_above_false[OF x, of "24 + n"]
      by (cases "n < 8") (auto simp: bit_and_iff bit_mask_iff bit_drop_bit_eq)
  qed
qed

lemma crc32_byte_low: "crc32_byte c (x AND 0xFF) XOR drop_bit 8 x = crc32_byte c x"
  using crc32_byte_push_bit[of c "x AND 0xFF" "drop_bit 8 x"] low_byte[of x] by simp

lemma foldl_crc32_byte_word:
  assumes w: "w < 2 ^ 32"
  shows "foldl crc32_byte 0
           [drop_bit (0 * 8) w AND 0xFF, drop_bit (1 * 8) w AND 0xFF,
            drop_bit (2 * 8) w AND 0xFF, drop_bit (3 * 8) w AND 0xFF]
         = (crc32_bit ^^ 32) w"
proof -
  define E where "E x = (crc32_bit ^^ 8) x" for x
  have E: "crc32_byte c b = E (c XOR b)" for c b
    by (simp add: E_def crc32_byte_funpow)
  have step: "E (y XOR (x AND 0xFF)) XOR drop_bit 8 x = E (y XOR x)" for x y
    using crc32_byte_low[of y x] by (simp add: E)
  have d: "drop_bit 8 (drop_bit 8 w) = drop_bit 16 w" "drop_bit 8 (drop_bit 16 w) = drop_bit 24 w"
    by (simp_all add: drop_bit_drop_bit)
  have lin: "E (a XOR b) = E a XOR E b" for a b
    by (simp add: E_def crc32_bit_funpow_xor)
  have s1: "E w = E (w AND 0xFF) XOR drop_bit 8 w"
    using step[of 0 w] by simp
  have s2: "E (E w) = E (E (w AND 0xFF) XOR (drop_bit 8 w AND 0xFF)) XOR drop_bit 16 w"
    using step[of "E (w AND 0xFF)" "drop_bit 8 w"] by (simp add: s1[symmetric] d)
  have s3: "E (E (E w)) = E (E (E (w AND 0xFF) XOR (drop_bit 8 w AND 0xFF))
                XOR (drop_bit 16 w AND 0xFF)) XOR drop_bit 24 w"
    using step[of "E (E (w AND 0xFF) XOR (drop_bit 8 w AND 0xFF))" "drop_bit 16 w"]
    by (simp add: s2[symmetric] d)
  have s4: "E (E (E (E w))) = E (E (E (E (w AND 0xFF) XOR (drop_bit 8 w AND 0xFF))
                XOR (drop_bit 16 w AND 0xFF)) XOR (drop_bit 24 w AND 0xFF))"
    unfolding s3 top_byte[OF w] ..
  have a: "(crc32_bit ^^ (8 + (8 + (8 + 8)))) w = E (E (E (E w)))"
    by (simp only: funpow_add o_apply E_def)
  have b: "8 + (8 + (8 + 8)) = (32::nat)" by simp
  show ?thesis unfolding a[unfolded b] s4 by (simp add: E)
qed


section \<open>The text emitter\<close>











subsection \<open>Claim C10\<close>










section \<open>The soundscript hash index\<close>

lemma map_of_dict_set: "map_of (dict_set d k v) = (map_of d)(k \<mapsto> v)"
  by (induction d k v rule: dict_set.induct) auto

lemma hash_names_loop_map_of:
  "map utf8_encode found = map Inr bss \<Longrightarrow>
     \<exists>d'. hash_names_loop found d = Inr d'
       \<and> map_of d' = map_of d ++ map_of (rev (zip (map crc32 bss) found))"
proof (induction found arbitrary: bss d)
  case Nil
  then show ?case by simp
next
  case (Cons n found)
  from Cons.prems obtain b bss' where bss: "bss = b # bss'"
    and b: "utf8_encode n = Inr b" and rest: "map utf8_encode found = map Inr bss'"
    by (cases bss) auto
  from Cons.IH[OF rest, of "dict_set d (crc32 b) n"]
  obtain d' where d': "hash_names_loop found (dict_set d (crc32 b) n) = Inr d'"
    and m: "map_of d' = map_of (dict_set d (crc32 b) n)
              ++ map_of (rev (zip (map crc32 bss') found))"
    by blast
  have "map_of d' = map_of d ++ map_of (rev (zip (map crc32 bss) (n # found)))"
    unfolding m map_of_dict_set bss
    by (rule ext) (simp add: map_add_def split: option.splits)
  with d' b show ?case by simp
qed

lemmas crc_eval = crc32_def crc32_byte_def crc32_bit_def numeral_2_eq_2[symmetric]

lemma crc32_plumless: "crc32 (str ''plumless'') = 0x4DDB0C25"
  by (simp add: str_def crc_eval)

lemma crc32_buckeroo: "crc32 (str ''buckeroo'') = 0x4DDB0C25"
  by (simp add: str_def crc_eval)

lemma utf8_encode_plumless: "utf8_encode (str ''plumless'') = Inr (str ''plumless'')"
  by (simp add: str_def)

lemma utf8_encode_buckeroo: "utf8_encode (str ''buckeroo'') = Inr (str ''buckeroo'')"
  by (simp add: str_def)

text \<open>
  C5, as the code has it. The hashing loop assigns \<open>soundscriptCandidates[crc32(name)] = name\<close>
  for each name in turn: it prints the one line \<open>Hashing soundscript names...\<close> and
  nothing else, and the dictionary maps a checksum to the last name of the list
  with that checksum, so of two names that collide the earlier one is overwritten
  without a signal.
\<close>

theorem C5_index_last_write_wins:
  "map utf8_encode found = map Inr bss \<longrightarrow>
     (\<exists>d. getSoundscriptsFromFiles (Some found)
             = Inr ([''Hashing soundscript names...''], d)
        \<and> map_of d = map_of (rev (zip (map crc32 bss) found)))"
proof
  assume "map utf8_encode found = map Inr bss"
  from hash_names_loop_map_of[OF this, of "[]"]
  obtain d where d: "hash_names_loop found [] = Inr d"
    and m: "map_of d = map_of (rev (zip (map crc32 bss) found))"
    by auto
  have "getSoundscriptsFromFiles (Some found) = Inr ([''Hashing soundscript names...''], d)
      \<and> map_of d = map_of (rev (zip (map crc32 bss) found))"
    using d m by (simp add: getSoundscriptsFromFiles_def)
  then show "\<exists>d. getSoundscriptsFromFiles (Some found)
             = Inr ([''Hashing soundscript names...''], d)
        \<and> map_of d = map_of (rev (zip (map crc32 bss) found))"
    by (rule exI[of _ d])
qed

theorem C5_index_last_write_wins_witness:
  "map utf8_encode [str ''plumless'', str ''buckeroo'']
     = map Inr [str ''plumless'', str ''buckeroo'']
   \<and> (\<exists>d. getSoundscriptsFromFiles (Some [str ''plumless'', str ''buckeroo''])
               = Inr ([''Hashing soundscript names...''], d)
          \<and> map_of d 0x4DDB0C25 = Some (str ''buckeroo''))"
proof -
  have enc: "map utf8_encode [str ''plumless'', str ''buckeroo'']
     = map Inr [str ''plumless'', str ''buckeroo'']"
    by (simp add: utf8_encode_plumless utf8_encode_buckeroo)
  from C5_index_last_write_wins[of "[str ''plumless'', str ''buckeroo'']"
      "[str ''plumless'', str ''buckeroo'']"] enc
  obtain d where d: "getSoundscriptsFromFiles (Some [str ''plumless'', str ''buckeroo''])
               = Inr ([''Hashing soundscript names...''], d)"
    and m: "map_of d = map_of (rev (zip (map crc32 [str ''plumless'', str ''buckeroo''])
                                 [str ''plumless'', str ''buckeroo'']))"
    by blast
  have "map_of d 0x4DDB0C25 = Some (str ''buckeroo'')"
    unfolding m by (simp add: crc32_plumless crc32_buckeroo)
  with d have "getSoundscriptsFromFiles (Some [str ''plumless'', str ''buckeroo''])
               = Inr ([''Hashing soundscript names...''], d)
          \<and> map_of d 0x4DDB0C25 = Some (str ''buckeroo'')"
    by (intro conjI)
  then have "\<exists>d. getSoundscriptsFromFiles (Some [str ''plumless'', str ''buckeroo''])
               = Inr ([''Hashing soundscript names...''], d)
          \<and> map_of d 0x4DDB0C25 = Some (str ''buckeroo'')"
    by (rule exI[of _ d])
  with enc show ?thesis by (intro conjI)
qed

text \<open>
  Two distinct names with the checksum \<open>0x4DDB0C25\<close>: the index keeps the second,
  drops the first, and prints no warning.
\<close>

theorem C5_counterexample:
  "str ''plumless'' \<noteq> str ''buckeroo''
   \<and> crc32 (str ''plumless'') = crc32 (str ''buckeroo'')
   \<and> getSoundscriptsFromFiles (Some [str ''plumless'', str ''buckeroo''])
       = Inr ([''Hashing soundscript names...''], [(0x4DDB0C25, str ''buckeroo'')])"
proof -
  have "str ''plumless'' \<noteq> str ''buckeroo''"
    by (simp add: str_def)
  moreover have "crc32 (str ''plumless'') = crc32 (str ''buckeroo'')"
    by (simp only: crc32_plumless crc32_buckeroo)
  moreover have "getSoundscriptsFromFiles (Some [str ''plumless'', str ''buckeroo''])
       = Inr ([''Hashing soundscript names...''], [(0x4DDB0C25, str ''buckeroo'')])"
    by (simp add: getSoundscriptsFromFiles_def utf8_encode_plumless utf8_encode_buckeroo
        crc32_plumless crc32_buckeroo)
  ultimately show ?thesis by (intro conjI)
qed

section \<open>The archive reader\<close>

subsection \<open>Claim C7\<close>

lemma file_read_open:
  "file_read 4 (open_file bytes)
     = (take 4 bytes,
        \<lparr>content = bytes, pos = length (take 4 bytes), trail = [0, length (take 4 bytes)]\<rparr>)"
  by (simp add: file_read_def open_file_def Let_def)

lemma file_read_version:
  "file_read 4 \<lparr>content = bytes, pos = 4, trail = [0, 4]\<rparr>
     = (take 4 (drop 4 bytes),
        \<lparr>content = bytes, pos = 4 + length (take 4 (drop 4 bytes)),
         trail = [0, 4, 4 + length (take 4 (drop 4 bytes))]\<rparr>)"
  by (simp add: file_read_def Let_def)

lemma main_bad_magic_bytes:
  assumes "\<not> (\<forall>b \<in> set (take 4 bytes). b < 128)"
  shows "main a language sources bytes
    = (Raised UnicodeDecodeError,
       \<lparr>content = bytes, pos = length (take 4 bytes), trail = [0, length (take 4 bytes)]\<rparr>)"
proof -
  have "ascii_decode (take 4 bytes) = Inl UnicodeDecodeError"
    using assms unfolding ascii_decode_def by (rule if_not_P)
  then show ?thesis
    unfolding main_def Let_def file_read_open by (simp only: prod.case sum.case)
qed

lemma main_bad_magic:
  assumes "\<forall>b \<in> set (take 4 bytes). b < 128" "take 4 bytes \<noteq> str ''VCCD''"
  shows "main a language sources bytes
    = (Exited InvalidMagic,
       \<lparr>content = bytes, pos = length (take 4 bytes), trail = [0, length (take 4 bytes)]\<rparr>)"
proof -
  have "ascii_decode (take 4 bytes) = Inr (take 4 bytes)"
    using assms(1) unfolding ascii_decode_def by (rule if_P)
  then show ?thesis
    unfolding main_def Let_def file_read_open
    by (simp only: prod.case sum.case if_P[OF assms(2)])
qed

lemma main_bad_version:
  assumes "take 4 bytes = str ''VCCD''" "from_bytes_little (take 4 (drop 4 bytes)) \<noteq> 1"
  shows "main a language sources bytes
    = (Exited (InvalidVersion (from_bytes_little (take 4 (drop 4 bytes)))),
       \<lparr>content = bytes, pos = 4 + length (take 4 (drop 4 bytes)),
        trail = [0, 4, 4 + length (take 4 (drop 4 bytes))]\<rparr>)"
proof -
  have len: "length (take 4 bytes) = 4"
    unfolding assms(1) by (simp add: str_def)
  have r1: "file_read 4 (open_file bytes)
      = (str ''VCCD'', \<lparr>content = bytes, pos = 4, trail = [0, 4]\<rparr>)"
    by (simp add: file_read_open assms(1) str_def)
  have asc: "ascii_decode (str ''VCCD'') = Inr (str ''VCCD'')"
    by (simp add: ascii_decode_def str_def)
  show ?thesis
    unfolding main_def Let_def r1 prod.case asc sum.case file_read_version
    by (simp only: if_P[OF assms(2)] if_False not_True_eq_False refl)
qed

text \<open>
  C7. When the first four bytes are not \<open>VCCD\<close>, or the version field is not 1,
  the run ends with \<open>sys.exit()\<close> (or, for magic bytes that are not ASCII, with the
  decoding error), never with the output written, and the stream has not been
  moved past byte 8: no directory entry, which starts at byte 24 or later, and
  no caption block has been read.
\<close>

theorem C7_header_abort:
  "take 4 bytes \<noteq> str ''VCCD'' \<or> from_bytes_little (take 4 (drop 4 bytes)) \<noteq> 1 \<longrightarrow>
     (\<exists>r f. main a language sources bytes = (r, f)
        \<and> (r = Raised UnicodeDecodeError \<or> r = Exited InvalidMagic
             \<or> r = Exited (InvalidVersion (from_bytes_little (take 4 (drop 4 bytes)))))
        \<and> (\<forall>t. r \<noteq> Wrote t)
        \<and> (\<forall>p \<in> set (trail f). p \<le> 8))"
proof
  assume h: "take 4 bytes \<noteq> str ''VCCD'' \<or> from_bytes_little (take 4 (drop 4 bytes)) \<noteq> 1"
  show "\<exists>r f. main a language sources bytes = (r, f)
        \<and> (r = Raised UnicodeDecodeError \<or> r = Exited InvalidMagic
             \<or> r = Exited (InvalidVersion (from_bytes_little (take 4 (drop 4 bytes)))))
        \<and> (\<forall>t. r \<noteq> Wrote t)
        \<and> (\<forall>p \<in> set (trail f). p \<le> 8)"
  proof (cases "take 4 bytes = str ''VCCD''")
    case True
    with h have v: "from_bytes_little (take 4 (drop 4 bytes)) \<noteq> 1" by simp
    show ?thesis
      unfolding main_bad_version[OF True v] by (intro exI conjI) (auto simp: min_def)
  next
    case False
    show ?thesis
    proof (cases "\<forall>b \<in> set (take 4 bytes). b < 128")
      case True
      show ?thesis
        unfolding main_bad_magic[OF True False] by (intro exI conjI) (auto simp: min_def)
    next
      case nonascii: False
      show ?thesis
        unfolding main_bad_magic_bytes[OF nonascii] by (intro exI conjI) (auto simp: min_def)
    qed
  qed
qed

theorem C7_header_abort_witness:
  "from_bytes_little (take 4 (drop 4 (str ''VCCD'' @ [2, 0, 0, 0]))) \<noteq> 1
   \<and> (\<exists>r f. main \<lparr>same_hashes = False, padding = 4, no_align = False, tabs = False,
                verbose = 0\<rparr> (str ''english'') None (str ''VCCD'' @ [2, 0, 0, 0]) = (r, f)
        \<and> (r = Raised UnicodeDecodeError \<or> r = Exited InvalidMagic \<or> r = Exited (InvalidVersion 2))
        \<and> (\<forall>t. r \<noteq> Wrote t)
        \<and> (\<forall>p \<in> set (trail f). p \<le> 8))"
  using C7_header_abort[of "str ''VCCD'' @ [2, 0, 0, 0]"
      "\<lparr>same_hashes = False, padding = 4, no_align = False, tabs = False, verbose = 0\<rparr>"
      "str ''english''" None]
  by (simp add: str_def)

subsection \<open>Reading from the stream\<close>

lemma file_read_facts:
  assumes "file_read n f = (bs, f')"
  shows "bs = take n (drop (pos f) (content f))"
    and "pos f' = pos f + length bs"
    and "content f' = content f"
    and "trail f' = trail f @ [pos f']"
  using assms by (auto simp: file_read_def Let_def)







subsection \<open>Claim C6\<close>





subsection \<open>A run on a truncated archive\<close>












section \<open>The stream position while the blocks are read\<close>


lemma sorted_le_last: "sorted xs \<Longrightarrow> x \<in> set xs \<Longrightarrow> x \<le> last xs"
  by (induction xs) (auto split: if_splits)


lemma forward_pos_le: "forward f g \<Longrightarrow> pos f \<le> pos g"
  unfolding forward_def using sorted_le_last[of "pos f # ps" "pos f" for ps] by auto








subsection \<open>A block whose entries overrun it\<close>



subsection \<open>A run whose blocks hold their entries\<close>





end
